theory Spec2Isabelle
  imports Main "HOL-Library.Word"
begin

unbundle bit_operations_syntax

text \<open>
  A shallow embedding of the ReactorAsterix decoder: the time reconciler of the category 001
  handler, the data item handlers and their size rules, the FSPEC walk of the category handler
  template, the packet handler, and the category 001 handler with its field decoders. The
  definitions come first, in the order of the call graph, leaves first; the properties follow.
\<close>

section \<open>Time reconciler (Asterix1Handler::expandTruncatedTime)\<close>

text \<open>
  The function works on \<open>uint32_t\<close> values; they are 32-bit words here, so that
  \<open>todA - kWindow\<close> and \<open>todA + kWindow\<close> wrap as in C++. The truncated clock is a
  \<open>uint16_t\<close>, widened by \<open>static_cast<uint32_t>\<close> (\<open>ucast\<close>).
\<close>

definition maxTOD :: "32 word" where
  "maxTOD = 86400 * 128"

definition kMspMask :: "32 word" where
  "kMspMask = 0xFFFF0000"

definition kWindow :: "32 word" where
  "kWindow = 0x00010000"

definition kTopMsp :: "32 word" where
  "kTopMsp = (maxTOD - 1) AND kMspMask"

definition HALF_DAY :: "32 word" where
  "HALF_DAY = maxTOD div 2"

text \<open>The lambda \<open>getDist\<close>; the captured \<open>refTOD\<close> is its first argument.\<close>

definition getDist :: "32 word \<Rightarrow> 32 word \<Rightarrow> 32 word" where
  "getDist refTOD T =
     (if T \<ge> maxTOD then maxTOD
      else let d = (if T > refTOD then T - refTOD else refTOD - T)
           in if d > HALF_DAY then maxTOD - d else d)"

definition todA :: "16 word \<Rightarrow> 32 word \<Rightarrow> 32 word" where
  "todA todLSP refTOD = (refTOD AND kMspMask) OR ucast todLSP"

definition todB :: "16 word \<Rightarrow> 32 word \<Rightarrow> 32 word" where
  "todB todLSP refTOD =
     (if refTOD AND kMspMask > 0 then todA todLSP refTOD - kWindow
      else kTopMsp OR ucast todLSP)"

definition todC :: "16 word \<Rightarrow> 32 word \<Rightarrow> 32 word" where
  "todC todLSP refTOD =
     (if refTOD AND kMspMask < kTopMsp then todA todLSP refTOD + kWindow
      else ucast todLSP)"

definition expandTruncatedTime :: "16 word \<Rightarrow> 32 word \<Rightarrow> 32 word" where
  "expandTruncatedTime todLSP refTOD =
     (let bestT = todA todLSP refTOD;
          minDist = getDist refTOD (todA todLSP refTOD);
          dB = getDist refTOD (todB todLSP refTOD);
          (minDist, bestT) =
             (if dB < minDist then (dB, todB todLSP refTOD) else (minDist, bestT));
          dC = getDist refTOD (todC todLSP refTOD);
          bestT = (if dC < minDist then todC todLSP refTOD else bestT)
      in bestT)"

text \<open>
  The specification's reading of the same choice, written from its words: the circular
  distance on \<open>[0, MAX_TOD)\<close>, candidates at or beyond \<open>MAX_TOD\<close> given distance
  \<open>MAX_TOD\<close>, and the closest of A, B, C with ties going to A, then B.
\<close>

definition circular_distance :: "int \<Rightarrow> int \<Rightarrow> int" where
  "circular_distance a b = min \<bar>a - b\<bar> (11059200 - \<bar>a - b\<bar>)"

definition spec_distance :: "32 word \<Rightarrow> 32 word \<Rightarrow> int" where
  "spec_distance refTOD T =
     (if 11059200 \<le> uint T then 11059200 else circular_distance (uint T) (uint refTOD))"

definition spec_candidate_A :: "16 word \<Rightarrow> 32 word \<Rightarrow> 32 word" where
  "spec_candidate_A lsp refTOD = (refTOD AND 0xFFFF0000) OR ucast lsp"

definition spec_candidate_B :: "16 word \<Rightarrow> 32 word \<Rightarrow> 32 word" where
  "spec_candidate_B lsp refTOD =
     (if refTOD AND 0xFFFF0000 > 0 then spec_candidate_A lsp refTOD - 0x10000
      else ((86400 * 128 - 1) AND 0xFFFF0000) OR ucast lsp)"

definition spec_candidate_C :: "16 word \<Rightarrow> 32 word \<Rightarrow> 32 word" where
  "spec_candidate_C lsp refTOD =
     (if refTOD AND 0xFFFF0000 < (86400 * 128 - 1) AND 0xFFFF0000
      then spec_candidate_A lsp refTOD + 0x10000
      else ucast lsp)"

definition spec_closest :: "16 word \<Rightarrow> 32 word \<Rightarrow> 32 word" where
  "spec_closest lsp refTOD =
     (let A = spec_candidate_A lsp refTOD;
          B = spec_candidate_B lsp refTOD;
          C = spec_candidate_C lsp refTOD;
          dA = spec_distance refTOD A;
          dB = spec_distance refTOD B;
          dC = spec_distance refTOD C
      in if dA \<le> dB \<and> dA \<le> dC then A
         else if dB \<le> dC then B
         else C)"

section \<open>Byte views and abnormal outcomes\<close>

text \<open>
  A \<open>std::string_view\<close> over the input is the list of its bytes; \<open>substr\<close> and
  \<open>remove_prefix\<close> are \<open>take\<close> and \<open>drop\<close>. Sizes and offsets are \<open>size_t\<close>
  values; they are natural numbers here, and the one place where the code lets a \<open>size_t\<close>
  wrap around (the start position of the extended-length scan) has the reduction modulo
  \<open>2 ^ 64\<close> written out.

  A call that does not return normally has one of three outcomes: the exception
  \<open>uninterpretedItem\<close> leaves it (nothing in the library catches it), it reads past the end
  of an array or view (undefined behaviour in C++), or a loop in it never ends.
\<close>

type_synonym byte = "8 word"
type_synonym view = "byte list"

datatype abort = UninterpretedItem | OutOfRange | NoReturn

text \<open>
  \<open>AsterixStats\<close>: eight \<open>std::atomic<uint64_t>\<close> counters, each only ever
  incremented. They are natural numbers here: a counter would need \<open>2 ^ 64\<close> increments to
  wrap.
\<close>

record AsterixStats =
  totalPackets :: nat
  trailingBytesCount :: nat
  unhandledCategories :: nat
  malformedBlocks :: nat
  malformedRecords :: nat
  recordParseErrors :: nat
  protocolViolations :: nat
  unhandledItems :: nat

section \<open>Data item handlers\<close>

text \<open>
  \<open>AsterixDataItemHandlerFixedLength::getSize\<close> returns the stored \<open>uint8_t\<close>.

  \<open>AsterixDataItemHandlerExtendedLength::getSize\<close> starts at \<open>currentPos = k - 1\<close>, computed
  in \<open>int\<close> and converted to \<open>size_t\<close>, so that \<open>k = 0\<close> gives \<open>2 ^ 64 - 1\<close>; it
  then runs \<open>while (currentPos < data.size()) { if (!(byte & 0x01)) break; currentPos += i; }\<close>
  and returns \<open>currentPos + 1\<close> if that is at most \<open>data.size()\<close>, else 0. Nothing bounds
  the number of iterations when \<open>i = 0\<close>, so the loop is a partial function: \<open>None\<close> is
  the scan that never ends.
\<close>

definition SIZE_MOD :: nat where
  "SIZE_MOD = 2 ^ 64"

definition fixed_getSize :: "byte \<Rightarrow> view \<Rightarrow> nat" where
  "fixed_getSize fixedSize data = unat fixedSize"

partial_function (option) extended_scan :: "nat \<Rightarrow> view \<Rightarrow> nat \<Rightarrow> nat option" where
  "extended_scan i data currentPos =
     (if currentPos < length data then
        (if \<not> bit (data ! currentPos) 0 then Some currentPos
         else extended_scan i data ((currentPos + i) mod SIZE_MOD))
      else Some currentPos)"

definition extended_getSize :: "byte \<Rightarrow> byte \<Rightarrow> view \<Rightarrow> nat option" where
  "extended_getSize k i data =
     (case extended_scan (unat i) data ((unat k + SIZE_MOD - 1) mod SIZE_MOD) of
        None \<Rightarrow> None
      | Some currentPos \<Rightarrow>
          (let totalSize = (currentPos + 1) mod SIZE_MOD
           in Some (if totalSize \<le> length data then totalSize else 0)))"

text \<open>
  The size rule in the words of the specification: scan from index \<open>k - 1\<close> forward by
  \<open>i\<close>, stop at the first byte whose bit 0 is 0 and report its index plus one; report 0 if
  the data runs out first. The indices visited are \<open>start + n * step\<close>.
\<close>

definition spec_extended_size :: "nat \<Rightarrow> nat \<Rightarrow> view \<Rightarrow> nat" where
  "spec_extended_size start step data =
     (case find (\<lambda>j. j < length data \<and> \<not> bit (data ! j) 0)
             (map (\<lambda>n. start + n * step) [0..<length data]) of
        None \<Rightarrow> 0
      | Some j \<Rightarrow> j + 1)"

section \<open>Category handler\<close>

text \<open>
  A data item handler (\<open>IAsterixDataItemHandler<T>\<close> with the two helper classes): its name,
  the mandatory flag, the size rule it was constructed with, and its \<open>decode\<close>, which writes
  into the report of type \<open>'r\<close> or throws.
\<close>

datatype size_rule = FixedLength byte | ExtendedLength byte byte

record 'r item_handler =
  item_name :: string
  mandatory :: bool
  item_size :: size_rule
  decode :: "'r \<Rightarrow> view \<Rightarrow> abort + 'r"

definition getSize :: "'r item_handler \<Rightarrow> view \<Rightarrow> nat option" where
  "getSize h data =
     (case item_size h of
        FixedLength n \<Rightarrow> Some (fixed_getSize n data)
      | ExtendedLength k i \<Rightarrow> extended_getSize k i data)"

definition isMandatory :: "'r item_handler \<Rightarrow> bool" where
  "isMandatory h = mandatory h"

text \<open>
  \<open>AsterixCategoryHandler<T>\<close>: the mandatory FSPEC mask (\<open>std::array<uint8_t, 20>\<close>), the
  number of mask bytes in use, and the lookup table (\<open>std::array<handler*, 128>\<close>, \<open>None\<close>
  for \<open>nullptr\<close>), indexed by FRN - 1. The ownership pool \<open>handlerOwnership\<close> only keeps the
  handler objects alive and is never read by the decoder; it is left out.

  \<open>addHandler\<close> takes the handler pointer (\<open>None\<close> for a null pointer) and the FRN as a
  \<open>uint8_t\<close>.
\<close>

definition MAX_FRNS :: nat where
  "MAX_FRNS = 128"

record 'r category_handler =
  mandatoryFspec :: view
  mandatoryFspecSize :: nat
  itemLookup :: "'r item_handler option list"

definition new_category_handler :: "'r category_handler" where
  "new_category_handler =
     \<lparr>mandatoryFspec = replicate 20 0, mandatoryFspecSize = 0,
      itemLookup = replicate MAX_FRNS None\<rparr>"

definition addHandler ::
  "'r item_handler option \<Rightarrow> byte \<Rightarrow> 'r category_handler \<Rightarrow> 'r category_handler" where
  "addHandler h frn c =
     (case h of
        None \<Rightarrow> c
      | Some ih \<Rightarrow>
          if frn = 0 \<or> unat frn > MAX_FRNS then c
          else
            let c1 =
              (if isMandatory ih then
                 let uFrn = unat frn;
                     byteIdx = (uFrn - 1) div 7;
                     bitIdx = 7 - ((uFrn - 1) mod 7)
                 in c\<lparr>mandatoryFspec :=
                        (mandatoryFspec c)[byteIdx := (mandatoryFspec c ! byteIdx) OR push_bit bitIdx 1],
                      mandatoryFspecSize := max (mandatoryFspecSize c) (byteIdx + 1)\<rparr>
               else c)
            in c1\<lparr>itemLookup := (itemLookup c1)[unat frn - 1 := Some ih]\<rparr>)"

text \<open>
  The state of one run of \<open>_processDataRecordInternal\<close>: the rest of the payload, the report
  being filled, and the statistics the handler is linked to (\<open>stats_ptr\<close>, set by
  \<open>registerCategoryHandler\<close> before the handler can be reached). The field \<open>decoded\<close> is not
  in the code: it records the sizes of the items decoded so far, in order.

  The lambda \<open>abortWithStat\<close> increments one counter and returns 0; it is written out for the
  three counters it is called with.
\<close>

record 'r walk =
  remainingData :: view
  ctx :: 'r
  stats :: AsterixStats
  decoded :: "nat list"

definition abort_protocolViolations :: "'r walk \<Rightarrow> nat \<times> 'r walk" where
  "abort_protocolViolations w =
     (0, w\<lparr>stats := (stats w)\<lparr>protocolViolations := protocolViolations (stats w) + 1\<rparr>\<rparr>)"

definition abort_malformedRecords :: "'r walk \<Rightarrow> nat \<times> 'r walk" where
  "abort_malformedRecords w =
     (0, w\<lparr>stats := (stats w)\<lparr>malformedRecords := malformedRecords (stats w) + 1\<rparr>\<rparr>)"

definition abort_unhandledItems :: "'r walk \<Rightarrow> nat \<times> 'r walk" where
  "abort_unhandledItems w =
     (0, w\<lparr>stats := (stats w)\<lparr>unhandledItems := unhandledItems (stats w) + 1\<rparr>\<rparr>)"

text \<open>
  The loop \<open>for (i = 0; i < mandatoryFspecSize; ++i) if (mandatoryFspec[i] & ~fspec[i]) return ...\<close>:
  \<open>True\<close> when it finds a byte with a mandatory bit that the received FSPEC lacks. It runs
  only when \<open>fspec.size() \<ge> mandatoryFspecSize\<close>, so both reads are in range.
\<close>

function mandatoryMissing :: "view \<Rightarrow> view \<Rightarrow> nat \<Rightarrow> nat \<Rightarrow> bool" where
  "mandatoryMissing required fspec i n =
     (if i < n then
        (if (required ! i) AND NOT (fspec ! i) \<noteq> 0 then True
         else mandatoryMissing required fspec (i + 1) n)
      else False)"
  by pat_completeness auto
termination
  by (relation "measure (\<lambda>(required, fspec, i, n). n - i)") auto

declare mandatoryMissing.simps [simp del]

text \<open>
  \<open>__builtin_clz\<close> is the compiler's count of leading zero bits of a 32-bit value (its result
  is undefined for 0, for which the loop below does not call it). The item loop calls it on the
  item bits shifted into the top byte, and clears the bit it found with
  \<open>itemBits &= ~(0x80 >> offset)\<close>.
\<close>

fun clz_from :: "nat \<Rightarrow> 32 word \<Rightarrow> nat" where
  "clz_from 0 x = 0"
| "clz_from (Suc n) x = (if bit x n then 0 else Suc (clz_from n x))"

definition builtin_clz :: "32 word \<Rightarrow> nat" where
  "builtin_clz x = clz_from 32 x"

definition item_offset :: "byte \<Rightarrow> nat" where
  "item_offset itemBits = builtin_clz (push_bit 24 (ucast itemBits))"

definition clear_item_bit :: "byte \<Rightarrow> nat \<Rightarrow> byte" where
  "clear_item_bit itemBits offset = itemBits AND NOT (drop_bit offset 0x80)"

text \<open>
  The loop \<open>while (itemBits)\<close> over the items of one FSPEC byte. Its result is \<open>Some n\<close> when
  the enclosing function returns \<open>n\<close> from inside the loop (always through \<open>abortWithStat\<close>),
  and \<open>None\<close> when the loop ends and the function goes on. \<open>frn_base\<close> and \<open>currentFrn\<close> are
  \<open>uint16_t\<close>; the index \<open>currentFrn - 1\<close> is computed in \<open>int\<close>.
\<close>

function processItemBits ::
  "'r category_handler \<Rightarrow> 16 word \<Rightarrow> byte \<Rightarrow> 'r walk \<Rightarrow> abort + (nat option \<times> 'r walk)" where
  "processItemBits c frn_base itemBits w =
     (if itemBits \<noteq> 0 then
        (let offset = item_offset itemBits;
             currentFrn = frn_base + of_nat offset;
             idx = uint currentFrn - 1
         in if idx < 0 \<or> int MAX_FRNS \<le> idx then Inl OutOfRange
            else
              (case itemLookup c ! nat idx of
                 None \<Rightarrow> Inr (map_prod Some id (abort_unhandledItems w))
               | Some handler \<Rightarrow>
                   (case getSize handler (remainingData w) of
                      None \<Rightarrow> Inl NoReturn
                    | Some itemSize \<Rightarrow>
                        if itemSize = 0 \<or> itemSize > length (remainingData w)
                        then Inr (map_prod Some id (abort_malformedRecords w))
                        else
                          (case decode handler (ctx w) (take itemSize (remainingData w)) of
                             Inl e \<Rightarrow> Inl e
                           | Inr ctx' \<Rightarrow>
                               processItemBits c frn_base (clear_item_bit itemBits offset)
                                 (w\<lparr>ctx := ctx',
                                    remainingData := drop itemSize (remainingData w),
                                    decoded := decoded w @ [itemSize]\<rparr>)))))
      else Inr (None, w))"
  by pat_completeness auto

text \<open>
  The loop \<open>for (const char c : fspec)\<close>. Leaving it with the last byte's FX bit still set is
  a malformed record.
\<close>

fun walkFspec ::
  "'r category_handler \<Rightarrow> view \<Rightarrow> 16 word \<Rightarrow> view \<Rightarrow> 'r walk \<Rightarrow> abort + (nat \<times> 'r walk)" where
  "walkFspec c payload frn_base [] w = Inr (abort_malformedRecords w)"
| "walkFspec c payload frn_base (fspecByte # rest) w =
     (case processItemBits c frn_base (fspecByte AND 0xFE) w of
        Inl e \<Rightarrow> Inl e
      | Inr (Some n, w') \<Rightarrow> Inr (n, w')
      | Inr (None, w') \<Rightarrow>
          if fspecByte AND 0x01 = 0
          then Inr (length payload - length (remainingData w'), w')
          else walkFspec c payload (frn_base + 7) rest w')"

text \<open>
  \<open>AsterixCategoryHandler<T>::_processDataRecordInternal\<close>: the two mandatory-field checks,
  then the walk. It returns the byte count together with the final state.
\<close>

definition processDataRecordInternal ::
  "'r category_handler \<Rightarrow> view \<Rightarrow> view \<Rightarrow> 'r \<Rightarrow> AsterixStats \<Rightarrow> abort + (nat \<times> 'r walk)" where
  "processDataRecordInternal c fspec payload context st =
     (let w = \<lparr>remainingData = payload, ctx = context, stats = st, decoded = []\<rparr>
      in if length fspec < mandatoryFspecSize c then Inr (abort_protocolViolations w)
         else if mandatoryMissing (mandatoryFspec c) fspec 0 (mandatoryFspecSize c)
              then Inr (abort_protocolViolations w)
         else walkFspec c payload 1 fspec w)"

section \<open>Packet handler\<close>

text \<open>
  The state a call of \<open>handlePacket\<close> works on is the statistics of the packet handler and
  whatever the registered category handlers keep (\<open>'w\<close>). A registered category handler is
  its \<open>processDataRecord\<close>, the one virtual call the packet handler makes.
\<close>

type_synonym 'w state = "AsterixStats \<times> 'w"
type_synonym 'w category_object = "view \<Rightarrow> view \<Rightarrow> 'w state \<Rightarrow> abort + (nat \<times> 'w state)"

definition HEADER_SIZE :: nat where "HEADER_SIZE = 3"
definition MIN_BLOCK_SIZE :: nat where "MIN_BLOCK_SIZE = 5"
definition MAX_FSPEC_SIZE :: nat where "MAX_FSPEC_SIZE = 10"
definition FX_BIT :: byte where "FX_BIT = 0x01"

text \<open>\<open>readBe16\<close>: \<open>(ptr[0] << 8) | ptr[1]\<close> as a \<open>uint16_t\<close>.\<close>

definition readBe16 :: "view \<Rightarrow> nat \<Rightarrow> 16 word" where
  "readBe16 sv offset = push_bit 8 (ucast (sv ! offset)) OR ucast (sv ! (offset + 1))"

text \<open>
  \<open>dispatchRecord\<close>. Its first loop finds the extent of the FSPEC and remembers the last byte
  with a data bit; \<open>None\<close> is its \<open>return 0\<close>.
\<close>

function scanFspec :: "view \<Rightarrow> nat \<Rightarrow> nat \<Rightarrow> byte \<Rightarrow> (nat \<times> nat \<times> byte) option" where
  "scanFspec recordView fspecSize lastDataIdx lastDataValue =
     (if fspecSize \<ge> length recordView \<or> fspecSize \<ge> MAX_FSPEC_SIZE then None
      else
        (let currentByte = recordView ! fspecSize;
             lastDataIdx' = (if currentByte > 1 then fspecSize else lastDataIdx);
             lastDataValue' = (if currentByte > 1 then currentByte else lastDataValue);
             fspecSize' = fspecSize + 1
         in if currentByte AND FX_BIT = 0 then Some (fspecSize', lastDataIdx', lastDataValue')
            else scanFspec recordView fspecSize' lastDataIdx' lastDataValue'))"
  by pat_completeness auto
termination
  by (relation "measure (\<lambda>(recordView, fspecSize, lastDataIdx, lastDataValue).
        MAX_FSPEC_SIZE - fspecSize)") auto

declare scanFspec.simps [simp del]

definition dispatchRecord :: "view \<Rightarrow> 'w category_object \<Rightarrow> 'w state \<Rightarrow> abort + (nat \<times> 'w state)" where
  "dispatchRecord recordView handler s =
     (case scanFspec recordView 0 0 0 of
        None \<Rightarrow> Inr (0, s)
      | Some (fspecSize, lastDataIdx, lastDataValue) \<Rightarrow>
          if lastDataValue > 0 \<and>
             (lastDataIdx > 18 \<or> (lastDataIdx = 18 \<and> lastDataValue AND 0x3E \<noteq> 0))
          then Inr (0, s)
          else if fspecSize > length recordView then Inr (0, s)
          else
            (case handler (take fspecSize recordView) (drop fspecSize recordView) s of
               Inl e \<Rightarrow> Inl e
             | Inr (consumed, s') \<Rightarrow>
                 if consumed > 0 then Inr (fspecSize + consumed, s') else Inr (0, s')))"

text \<open>
  \<open>processDataBlock\<close>, with its record loop \<open>while (offset < length)\<close>. The local
  \<open>length\<close> is called \<open>len\<close> here.
\<close>

function recordLoop ::
  "'w category_object \<Rightarrow> view \<Rightarrow> nat \<Rightarrow> nat \<Rightarrow> 'w state \<Rightarrow> abort + 'w state" where
  "recordLoop handler block len offset s =
     (if offset < len then
        (case dispatchRecord (take (len - offset) (drop offset block)) handler s of
           Inl e \<Rightarrow> Inl e
         | Inr (consumed, s') \<Rightarrow>
             if consumed > 0 then recordLoop handler block len (offset + consumed) s'
             else Inr (apfst (\<lambda>st. st\<lparr>recordParseErrors := recordParseErrors st + 1\<rparr>) s'))
      else Inr s)"
  by pat_completeness auto
termination
  by (relation "measure (\<lambda>(handler, block, len, offset, s). len - offset)") auto

declare recordLoop.simps [simp del]

definition processDataBlock ::
  "(byte \<Rightarrow> 'w category_object option) \<Rightarrow> view \<Rightarrow> 'w state \<Rightarrow> abort + (nat \<times> 'w state)" where
  "processDataBlock categoryHandlers block s =
     (if length block < HEADER_SIZE then Inr (0, s)
      else
        (let category = block ! 0;
             len = unat (readBe16 block 1)
         in if len < HEADER_SIZE \<or> len > length block then Inr (0, s)
            else
              (case categoryHandlers category of
                 Some handler \<Rightarrow>
                   (case recordLoop handler block len HEADER_SIZE s of
                      Inl e \<Rightarrow> Inl e
                    | Inr s' \<Rightarrow> Inr (len, s'))
               | None \<Rightarrow>
                   Inr (len, apfst (\<lambda>st. st\<lparr>unhandledCategories := unhandledCategories st + 1\<rparr>) s))))"

text \<open>
  \<open>handlePacket\<close>, with its loop \<open>while (buffer.size() >= MIN_BLOCK_SIZE)\<close>. The buffer is
  given as the list of its \<open>size\<close> bytes, so the null-pointer half of the guard
  \<open>!data || size == 0\<close> has no counterpart. Besides the state, the model returns the lengths
  of the blocks that \<open>processDataBlock\<close> accepted, in order; the code does not keep them.
\<close>

function blockLoop ::
  "(byte \<Rightarrow> 'w category_object option) \<Rightarrow> view \<Rightarrow> 'w state \<Rightarrow> nat list
     \<Rightarrow> abort + (view \<times> 'w state \<times> nat list)" where
  "blockLoop categoryHandlers buffer s blocks =
     (if length buffer \<ge> MIN_BLOCK_SIZE then
        (case processDataBlock categoryHandlers buffer s of
           Inl e \<Rightarrow> Inl e
         | Inr (blockLength, s') \<Rightarrow>
             if blockLength > 0
             then blockLoop categoryHandlers (drop blockLength buffer) s' (blocks @ [blockLength])
             else Inr (buffer, apfst (\<lambda>st. st\<lparr>malformedBlocks := malformedBlocks st + 1\<rparr>) s', blocks))
      else Inr (buffer, s, blocks))"
  by pat_completeness auto
termination
  by (relation "measure (\<lambda>(categoryHandlers, buffer, s, blocks). length buffer)")
     (auto simp: MIN_BLOCK_SIZE_def)

declare blockLoop.simps [simp del]

definition handlePacket ::
  "(byte \<Rightarrow> 'w category_object option) \<Rightarrow> view \<Rightarrow> 'w state \<Rightarrow> abort + ('w state \<times> nat list)" where
  "handlePacket categoryHandlers data s =
     (if length data = 0 then Inr (s, [])
      else
        (case blockLoop categoryHandlers data
                (apfst (\<lambda>st. st\<lparr>totalPackets := totalPackets st + 1\<rparr>) s) [] of
           Inl e \<Rightarrow> Inl e
         | Inr (buffer, s', blocks) \<Rightarrow>
             if buffer \<noteq> []
             then Inr (apfst (\<lambda>st. st\<lparr>trailingBytesCount := trailingBytesCount st + length buffer\<rparr>) s',
                       blocks)
             else Inr (s', blocks)))"

section \<open>Category 001\<close>

text \<open>
  \<open>Asterix1Report\<close>. The fields \<open>range\<close>, \<open>azimuth\<close> and the height are \<open>double\<close>
  values computed from 16-bit integers; the report here keeps the integers they are computed
  from (\<open>rawRange\<close>, \<open>rawAzimuth\<close>, and the sign-extended flight level).
\<close>

text \<open>
  Modelled from the spec: \<open>SourceIdentifier.h\<close> is not among the sources. A source
  identifier is the pair (SAC, SIC) of two bytes; a fresh report has the pair (0, 0).
\<close>

record Asterix1Report =
  sourceIdentifier :: "byte \<times> byte"
  TOD :: "32 word"
  rawRange :: "16 word"
  rawAzimuth :: "16 word"
  mode3A :: "(16 word \<times> bool \<times> bool \<times> bool) option"
  ssrHeight :: "(int \<times> bool \<times> bool) option"
  todLSP :: "16 word"
  ssrpsr :: byte
  ds1ds2 :: byte
  spi :: bool
  hasLspClock :: bool

definition new_Asterix1Report :: Asterix1Report where
  "new_Asterix1Report =
     \<lparr>sourceIdentifier = (0, 0), TOD = 0, rawRange = 0, rawAzimuth = 0, mode3A = None,
      ssrHeight = None, todLSP = 0, ssrpsr = 0, ds1ds2 = 0, spi = False, hasLspClock = False\<rparr>"

text \<open>
  The field decoders. A decoder reads \<open>data[0]\<close>, \<open>data[1]\<close>, ... without a check of its own
  (the caller passes \<open>getSize\<close> bytes); a read past the end of the view is \<open>OutOfRange\<close>.
  \<open>throw uninterpretedItem()\<close> is \<open>Inl UninterpretedItem\<close>. In \<open>I001_141_Handler::decode\<close>
  the bytes are \<open>char\<close> values, which are signed on the platforms the library builds on, so
  both conversions sign-extend.
\<close>

definition ntohs :: "view \<Rightarrow> nat \<Rightarrow> 16 word" where
  "ntohs data offset = push_bit 8 (ucast (data ! offset)) OR ucast (data ! (offset + 1))"

definition I001_010_decode :: "Asterix1Report \<Rightarrow> view \<Rightarrow> abort + Asterix1Report" where
  "I001_010_decode report data =
     (if length data < 2 then Inl OutOfRange
      else Inr (report\<lparr>sourceIdentifier := (data ! 0, data ! 1)\<rparr>))"

definition I001_020_decode :: "Asterix1Report \<Rightarrow> view \<Rightarrow> abort + Asterix1Report" where
  "I001_020_decode report data =
     (if length data < 1 then Inl OutOfRange
      else
        (let octet1 = data ! 0 in
         if octet1 AND 0xC0 \<noteq> 0 then Inl UninterpretedItem
         else
           (let report1 = report\<lparr>ssrpsr := drop_bit 4 (octet1 AND 0x30)\<rparr>;
                report2 = (if octet1 AND 0x04 \<noteq> 0 then report1\<lparr>spi := True\<rparr> else report1)
            in if octet1 AND 0x01 \<noteq> 0 then
                 (if length data < 2 then Inl OutOfRange
                  else
                    (let octet2 = data ! 1 in
                     if octet2 AND 0x98 \<noteq> 0 then Inl UninterpretedItem
                     else
                       (let report3 = report2\<lparr>ds1ds2 := drop_bit 5 (octet2 AND 0x60)\<rparr>
                        in if octet2 AND 0x01 \<noteq> 0 then Inl UninterpretedItem
                           else Inr report3)))
               else Inr report2)))"

definition I001_040_decode :: "Asterix1Report \<Rightarrow> view \<Rightarrow> abort + Asterix1Report" where
  "I001_040_decode report data =
     (if length data < 4 then Inl OutOfRange
      else Inr (report\<lparr>rawRange := ntohs data 0, rawAzimuth := ntohs data 2\<rparr>))"

definition I001_070_decode :: "Asterix1Report \<Rightarrow> view \<Rightarrow> abort + Asterix1Report" where
  "I001_070_decode report data =
     (if length data < 2 then Inl OutOfRange
      else
        (let mode3ATemp = ntohs data 0;
             validity = (mode3ATemp AND 0x8000 \<noteq> 0);
             garbled = (mode3ATemp AND 0x4000 \<noteq> 0);
             local = (mode3ATemp AND 0x2000 \<noteq> 0)
         in Inr (report\<lparr>mode3A := Some (mode3ATemp AND 0x0FFF, validity, garbled, local)\<rparr>)))"

definition I001_090_decode :: "Asterix1Report \<Rightarrow> view \<Rightarrow> abort + Asterix1Report" where
  "I001_090_decode report data =
     (if length data < 2 then Inl OutOfRange
      else
        (let flightLevelTemp = ntohs data 0;
             v = (flightLevelTemp AND 0x8000 \<noteq> 0);
             g = (flightLevelTemp AND 0x4000 \<noteq> 0);
             flightLevelTemp1 = flightLevelTemp AND 0x3FFF;
             flightLevelTemp2 =
               (if flightLevelTemp1 AND 0x2000 \<noteq> 0 then flightLevelTemp1 OR 0xC000
                else flightLevelTemp1);
             flValue = sint flightLevelTemp2
         in Inr (report\<lparr>ssrHeight := Some (flValue, v, g)\<rparr>)))"

definition I001_141_decode :: "Asterix1Report \<Rightarrow> view \<Rightarrow> abort + Asterix1Report" where
  "I001_141_decode report data =
     (if length data < 2 then Inl OutOfRange
      else
        (let hi = (ucast (scast (data ! 0) :: 16 word) :: 32 word);
             lo = (scast (data ! 1) :: 32 word)
         in Inr (report\<lparr>todLSP := ucast (push_bit 8 hi OR lo), hasLspClock := True\<rparr>)))"

definition base_decode :: "'r \<Rightarrow> view \<Rightarrow> abort + 'r" where
  "base_decode context data = Inr context"

text \<open>
  The handler classes of \<open>Asterix1DataItemCollection.h\<close> and the table that
  \<open>Asterix1Handler::registerHandlers\<close> builds, one \<open>addHandler\<close> call after the other.
\<close>

definition I001_010_Handler :: "Asterix1Report item_handler" where
  "I001_010_Handler =
     \<lparr>item_name = ''I001/010 Data Source Identifier'', mandatory = True,
      item_size = FixedLength 2, decode = I001_010_decode\<rparr>"

definition I001_020_Handler :: "Asterix1Report item_handler" where
  "I001_020_Handler =
     \<lparr>item_name = ''I001/020 Target Report Descriptor'', mandatory = True,
      item_size = ExtendedLength 1 1, decode = I001_020_decode\<rparr>"

definition I001_040_Handler :: "Asterix1Report item_handler" where
  "I001_040_Handler =
     \<lparr>item_name = ''I001/040 Measured Position (Polar)'', mandatory = False,
      item_size = FixedLength 4, decode = I001_040_decode\<rparr>"

definition I001_070_Handler :: "Asterix1Report item_handler" where
  "I001_070_Handler =
     \<lparr>item_name = ''I001/070 Mode-3/A Code'', mandatory = False,
      item_size = FixedLength 2, decode = I001_070_decode\<rparr>"

definition I001_090_Handler :: "Asterix1Report item_handler" where
  "I001_090_Handler =
     \<lparr>item_name = ''I001/090 Mode-C Code (Flight Level)'', mandatory = False,
      item_size = FixedLength 2, decode = I001_090_decode\<rparr>"

definition I001_130_Handler :: "Asterix1Report item_handler" where
  "I001_130_Handler =
     \<lparr>item_name = ''I001/130 Radar Plot Characteristics'', mandatory = False,
      item_size = ExtendedLength 1 1, decode = base_decode\<rparr>"

definition I001_141_Handler :: "Asterix1Report item_handler" where
  "I001_141_Handler =
     \<lparr>item_name = ''I001/141 Truncated Time of Day'', mandatory = False,
      item_size = FixedLength 2, decode = I001_141_decode\<rparr>"

definition I001_050_Handler :: "Asterix1Report item_handler" where
  "I001_050_Handler =
     \<lparr>item_name = ''I001/050 Mode-2 Code'', mandatory = False,
      item_size = FixedLength 2, decode = base_decode\<rparr>"

definition I001_131_Handler :: "Asterix1Report item_handler" where
  "I001_131_Handler =
     \<lparr>item_name = ''I001/131 Received Power'', mandatory = False,
      item_size = FixedLength 1, decode = base_decode\<rparr>"

definition I001_150_Handler :: "Asterix1Report item_handler" where
  "I001_150_Handler =
     \<lparr>item_name = ''I001/150 Presence of X-Pulse'', mandatory = False,
      item_size = FixedLength 1, decode = base_decode\<rparr>"

definition Asterix1Handler_registerHandlers ::
  "Asterix1Report category_handler \<Rightarrow> Asterix1Report category_handler" where
  "Asterix1Handler_registerHandlers =
     addHandler (Some I001_150_Handler) 15 \<circ>
     addHandler (Some I001_131_Handler) 10 \<circ>
     addHandler (Some I001_050_Handler) 8 \<circ>
     addHandler (Some I001_141_Handler) 7 \<circ>
     addHandler (Some I001_130_Handler) 6 \<circ>
     addHandler (Some I001_090_Handler) 5 \<circ>
     addHandler (Some I001_070_Handler) 4 \<circ>
     addHandler (Some I001_040_Handler) 3 \<circ>
     addHandler (Some I001_020_Handler) 2 \<circ>
     addHandler (Some I001_010_Handler) 1"

definition Asterix1Handler :: "Asterix1Report category_handler" where
  "Asterix1Handler = Asterix1Handler_registerHandlers new_category_handler"

text \<open>
  \<open>Asterix1Handler::processDataRecord\<close>. What it works on besides the statistics: the source
  state store, the value \<open>calculateCurrentTod()\<close> would read from the system clock, and the
  reports handed to the listeners.
\<close>

record cat1_world =
  sources :: "byte \<times> byte \<Rightarrow> 32 word option"
  currentTod :: "32 word"
  delivered :: "Asterix1Report list"

definition Asterix1Handler_processDataRecord ::
  "Asterix1Report category_handler \<Rightarrow> cat1_world category_object" where
  "Asterix1Handler_processDataRecord c fspec payload s =
     (case processDataRecordInternal c fspec payload new_Asterix1Report (fst s) of
        Inl e \<Rightarrow> Inl e
      | Inr (consumed, w) \<Rightarrow>
          if consumed > 0 then
            (let report = ctx w;
                 world = snd s;
                 ref = (case sources world (sourceIdentifier report) of
                          Some t \<Rightarrow> t
                        | None \<Rightarrow> currentTod world);
                 report' = report\<lparr>TOD :=
                    (if hasLspClock report then expandTruncatedTime (todLSP report) ref else ref)\<rparr>
             in Inr (consumed,
                     (stats w,
                      world\<lparr>sources := (sources world)(sourceIdentifier report' \<mapsto> TOD report'),
                            delivered := delivered world @ [report']\<rparr>)))
          else Inr (consumed, (stats w, snd s)))"

text \<open>
  A packet handler as it is after construction and \<open>registerCategoryHandler(1, ...)\<close>: all
  counters zero, a category 001 handler, an empty source state store.
\<close>

definition new_stats :: AsterixStats where
  "new_stats =
     \<lparr>totalPackets = 0, trailingBytesCount = 0, unhandledCategories = 0, malformedBlocks = 0,
      malformedRecords = 0, recordParseErrors = 0, protocolViolations = 0, unhandledItems = 0\<rparr>"

definition cat1_only :: "byte \<Rightarrow> cat1_world category_object option" where
  "cat1_only category =
     (if category = 1 then Some (Asterix1Handler_processDataRecord Asterix1Handler) else None)"

definition new_world :: cat1_world where
  "new_world = \<lparr>sources = Map.empty, currentTod = 0, delivered = []\<rparr>"

section \<open>Predicates used in the properties\<close>

text \<open>
  A received FSPEC violates the mandatory mask when it is shorter than the mask in use or lacks
  a mandatory bit. A category handler keeps the trailing-byte counter when no call of it changes
  \<open>trailingBytesCount\<close>.
\<close>

definition fspec_violation :: "'r category_handler \<Rightarrow> view \<Rightarrow> bool" where
  "fspec_violation c fspec \<longleftrightarrow>
     length fspec < mandatoryFspecSize c \<or>
     (\<exists>i<mandatoryFspecSize c. (mandatoryFspec c ! i) AND NOT (fspec ! i) \<noteq> 0)"

definition keeps_trailing :: "'w category_object \<Rightarrow> bool" where
  "keeps_trailing h \<longleftrightarrow>
     (\<forall>fspec payload s n s'. h fspec payload s = Inr (n, s') \<longrightarrow>
        trailingBytesCount (fst s') = trailingBytesCount (fst s))"

text \<open>
  The counters the FSPEC walk leaves alone, the invariant tying the remaining payload to the
  sizes decoded so far, and the state the walk starts from.
\<close>

definition stats_frame :: "AsterixStats \<Rightarrow> AsterixStats \<Rightarrow> bool" where
  "stats_frame st st' \<longleftrightarrow>
     totalPackets st' = totalPackets st \<and>
     trailingBytesCount st' = trailingBytesCount st \<and>
     unhandledCategories st' = unhandledCategories st \<and>
     malformedBlocks st' = malformedBlocks st \<and>
     recordParseErrors st' = recordParseErrors st \<and>
     protocolViolations st' = protocolViolations st"

definition walk_frame :: "'r walk \<Rightarrow> 'r walk \<Rightarrow> bool" where
  "walk_frame w w' \<longleftrightarrow> stats_frame (stats w) (stats w')"

definition walk_inv :: "view \<Rightarrow> 'r walk \<Rightarrow> bool" where
  "walk_inv payload w \<longleftrightarrow>
     sum_list (decoded w) \<le> length payload \<and>
     remainingData w = drop (sum_list (decoded w)) payload"

definition start_walk :: "view \<Rightarrow> 'r \<Rightarrow> AsterixStats \<Rightarrow> 'r walk" where
  "start_walk payload rep st =
     \<lparr>remainingData = payload, ctx = rep, stats = st, decoded = []\<rparr>"

section \<open>Termination of the item loop\<close>

text \<open>
  The offset is the position of the highest set bit counted from bit 7, and clearing that bit
  makes the byte smaller: this is why the item loop ends.
\<close>

lemma item_offset_cases:
  "item_offset b =
     (if bit b 7 then 0 else if bit b 6 then 1 else if bit b 5 then 2 else if bit b 4 then 3
      else if bit b 3 then 4 else if bit b 2 then 5 else if bit b 1 then 6
      else if bit b 0 then 7 else 32)"
proof -
  have n: "clz_from (numeral k) x = (if bit x (pred_numeral k) then 0 else Suc (clz_from (pred_numeral k) x))" for k x
    by (simp add: numeral_eq_Suc)
  have o: "clz_from 1 x = (if bit x 0 then 0 else Suc 0)" for x
    by simp
  have b: "bit (push_bit 24 (ucast b :: 32 word)) n \<longleftrightarrow> 24 \<le> n \<and> n < 32 \<and> bit b (n - 24)" for n
    by (auto simp add: bit_simps)
  show ?thesis
    unfolding item_offset_def builtin_clz_def
    by (simp add: n o b)
qed

lemma item_offset_bit:
  assumes "itemBits \<noteq> 0"
  shows "item_offset itemBits \<le> 7 \<and> bit itemBits (7 - item_offset itemBits)"
proof -
  have d: "bit itemBits 7 \<or> bit itemBits 6 \<or> bit itemBits 5 \<or> bit itemBits 4
         \<or> bit itemBits 3 \<or> bit itemBits 2 \<or> bit itemBits 1 \<or> bit itemBits 0"
  proof (rule ccontr)
    assume c: "\<not> ?thesis"
    have "itemBits = 0"
    proof (rule bit_word_eqI)
      fix n assume "n < LENGTH(8)"
      then have "n \<in> {7, 6, 5, 4, 3, 2, 1, 0}"
        by auto
      with c show "bit itemBits n = bit (0 :: byte) n" by auto
    qed
    with assms show False by simp
  qed
  then show ?thesis
    unfolding item_offset_cases by auto
qed

lemma clear_item_bit_less:
  assumes "itemBits \<noteq> 0"
  shows "clear_item_bit itemBits (item_offset itemBits) < itemBits"
proof -
  let ?o = "item_offset itemBits"
  let ?m = "drop_bit ?o (0x80 :: byte)"
  have o: "?o \<le> 7" "bit itemBits (7 - ?o)"
    using item_offset_bit [OF assms] by simp_all
  have "drop_bit j (2 ^ k :: byte) = 2 ^ (k - j)" if "j \<le> k" "k < 8" for j k
    using that by (intro bit_word_eqI) (auto simp: bit_simps)
  from this [of ?o 7] have m: "?m = 2 ^ (7 - ?o)" using o(1) by simp
  have nz: "itemBits AND ?m \<noteq> 0"
    unfolding m using o(2) by (simp add: and_exp_eq_0_iff_not_bit)
  have le: "itemBits AND NOT ?m \<le> itemBits" by (rule word_and_le2)
  have "itemBits AND NOT ?m \<noteq> itemBits"
  proof
    assume "itemBits AND NOT ?m = itemBits"
    then have "itemBits AND ?m = (itemBits AND NOT ?m) AND ?m" by simp
    also have "\<dots> = 0" by (simp add: and.assoc)
    finally show False using nz by simp
  qed
  with le show ?thesis unfolding clear_item_bit_def by simp
qed

termination processItemBits
  by (relation "measure (\<lambda>(c, frn_base, itemBits, w). unat itemBits)")
     (auto simp: word_less_nat_alt [symmetric] clear_item_bit_less)

declare processItemBits.simps [simp del]

section \<open>Properties of the time reconciler\<close>

subsection \<open>The candidates as integers\<close>

lemma kMspMask_alt: "kMspMask = NOT (mask 16)"
  by (simp add: kMspMask_def mask_eq_exp_minus_1)

lemma msp_push: "x AND kMspMask = push_bit 16 (drop_bit 16 x)" for x :: "32 word"
  unfolding kMspMask_alt
  by (rule bit_word_eqI) (auto simp add: bit_simps)

lemma uint_bound32: "uint (x :: 32 word) < 4294967296"
  using uint_lt2p [of x] by simp

lemma uint_lsp_bound: "uint (l::16 word) < 65536"
  using uint_lt2p [of l] by simp

lemma uint_msp: "uint (x AND kMspMask) = (uint x div 65536) * 65536" for x :: "32 word"
proof -
  have b: "uint x div 65536 * 65536 < 4294967296" "0 \<le> uint x div 65536 * 65536"
    using uint_bound32 [of x] uint_ge_0 [of x] by (simp_all add: pos_imp_zdiv_nonneg_iff)
  have t: "take_bit 32 (uint x) = uint x"
    using uint_bound32 [of x] by (simp add: take_bit_int_eq_self)
  have "uint (x AND kMspMask) = take_bit 32 (push_bit 16 (drop_bit 16 (take_bit 32 (uint x))))"
    unfolding msp_push unsigned_push_bit_eq unsigned_drop_bit_eq by simp
  also have "\<dots> = (uint x div 65536 * 65536) mod 4294967296"
    unfolding t by (simp only: push_bit_eq_mult drop_bit_eq_div take_bit_eq_mod) simp
  finally show ?thesis using b by simp
qed

lemma msp_and_lsp: "(x AND kMspMask) AND ucast (l::16 word) = (0 :: 32 word)"
  unfolding kMspMask_alt
  by (rule bit_word_eqI) (auto simp add: bit_simps dest: bit_imp_le_length)

lemma uint_ucast_lsp: "uint (ucast (l::16 word) :: 32 word) = uint l"
  by (rule uint_up_ucast) (simp add: is_up)

lemma uint_msp_or_lsp:
  "uint ((x AND kMspMask) OR ucast (l::16 word)) = (uint x div 65536) * 65536 + uint l"
proof -
  have e: "(x AND kMspMask) OR ucast l = (x AND kMspMask) + ucast l"
    using disjunctive_add_eq_or [OF msp_and_lsp] by simp
  have "uint x div 65536 * 65536 + 65536 \<le> 4294967296"
    using uint_bound32 [of x] by simp
  then have "uint (x AND kMspMask) + uint (ucast l :: 32 word) < 2 ^ 32"
    using uint_lsp_bound [of l] by (simp add: uint_msp uint_ucast_lsp)
  then have "uint ((x AND kMspMask) + ucast l) = uint (x AND kMspMask) + uint (ucast l :: 32 word)"
    by (simp add: uint_add_lem [THEN iffD1])
  then show ?thesis
    unfolding e by (simp add: uint_msp uint_ucast_lsp)
qed

lemma uint_maxTOD_pred: "uint (maxTOD - 1) = 11059199"
  by (simp add: maxTOD_def)

lemma uint_kTopMsp: "uint kTopMsp = 11010048"
  unfolding kTopMsp_def uint_msp uint_maxTOD_pred by simp

lemma uint_todA: "uint (todA l x) = (uint x div 65536) * 65536 + uint l"
  unfolding todA_def by (rule uint_msp_or_lsp)

lemma msp_pos_iff: "(0 < x AND kMspMask) \<longleftrightarrow> 0 < uint x div 65536" for x :: "32 word"
  by (simp add: word_less_def uint_msp)

lemma msp_below_top_iff:
  "(x AND kMspMask < kTopMsp) \<longleftrightarrow> uint x div 65536 < 168" for x :: "32 word"
  by (simp add: word_less_def uint_msp uint_kTopMsp)

lemma uint_todB:
  "uint (todB l refTOD) =
     (if 0 < uint refTOD div 65536 then (uint refTOD div 65536 - 1) * 65536 + uint l
      else 11010048 + uint l)"
proof (cases "0 < uint refTOD div 65536")
  case True
  then have "65536 \<le> uint refTOD div 65536 * 65536" by simp
  then have "uint (todA l refTOD) \<ge> 65536"
    using uint_ge_0 [of l] unfolding uint_todA by linarith
  then have "uint (todA l refTOD - kWindow) = uint (todA l refTOD) - 65536"
    unfolding kWindow_def by uint_arith
  with True show ?thesis by (simp add: todB_def msp_pos_iff uint_todA algebra_simps)
next
  case False
  have "uint (kTopMsp OR ucast l) = 11010048 + uint l"
    unfolding kTopMsp_def uint_msp_or_lsp uint_maxTOD_pred by simp
  with False show ?thesis by (simp add: todB_def msp_pos_iff)
qed

lemma uint_todC:
  "uint (todC l refTOD) =
     (if uint refTOD div 65536 < 168 then (uint refTOD div 65536 + 1) * 65536 + uint l
      else uint l)"
proof (cases "uint refTOD div 65536 < 168")
  case True
  then have "uint refTOD div 65536 * 65536 < 168 * 65536" by simp
  then have "uint (todA l refTOD) < 4294967296 - 65536"
    using uint_lsp_bound [of l] unfolding uint_todA by linarith
  then have "uint (todA l refTOD) + uint kWindow < 2 ^ 32"
    by (simp add: kWindow_def)
  then have "uint (todA l refTOD + kWindow) = uint (todA l refTOD) + uint kWindow"
    by (simp add: uint_add_lem [THEN iffD1])
  then have "uint (todA l refTOD + kWindow) = uint (todA l refTOD) + 65536"
    by (simp add: kWindow_def)
  with True show ?thesis by (simp add: todC_def msp_below_top_iff uint_todA algebra_simps)
next
  case False
  then show ?thesis by (simp add: todC_def msp_below_top_iff uint_ucast_lsp)
qed

subsection \<open>The code's distance is the circular distance\<close>

lemma uint_getDist:
  assumes "refTOD < maxTOD"
  shows "uint (getDist refTOD T) = spec_distance refTOD T"
  using assms
  unfolding getDist_def maxTOD_def HALF_DAY_def spec_distance_def circular_distance_def Let_def
  by uint_arith

lemma spec_candidates:
  "spec_candidate_A l r = todA l r"
  "spec_candidate_B l r = todB l r"
  "spec_candidate_C l r = todC l r"
  by (simp_all add: spec_candidate_A_def spec_candidate_B_def spec_candidate_C_def
      todA_def todB_def todC_def kMspMask_def kTopMsp_def kWindow_def maxTOD_def)

lemma expandTruncatedTime_spec_closest:
  assumes "refTOD < maxTOD"
  shows "expandTruncatedTime lsp refTOD = spec_closest lsp refTOD"
  unfolding expandTruncatedTime_def spec_closest_def Let_def spec_candidates
    uint_getDist [OF assms, symmetric] word_less_def [symmetric] word_le_def [symmetric]
  by (auto simp add: not_less not_le)

subsection \<open>The chosen candidate is a time of day with the given low half\<close>

lemma low16:
  assumes "uint (T :: 32 word) = k * 65536 + uint (l :: 16 word)"
  shows "T AND 0xFFFF = ucast l"
proof -
  have m: "(0xFFFF :: 32 word) = mask 16" by (simp add: mask_eq_exp_minus_1)
  have "uint (T AND 0xFFFF) = uint T mod 65536"
    unfolding m take_bit_eq_mask [symmetric] unsigned_take_bit_eq
    by (simp only: take_bit_eq_mod) simp
  also have "\<dots> = uint l"
    using uint_lsp_bound [of l] uint_ge_0 [of l] unfolding assms by simp
  finally have "uint (T AND 0xFFFF) = uint (ucast l :: 32 word)"
    by (simp add: uint_ucast_lsp)
  then show ?thesis by (simp add: word_uint_eq_iff)
qed

lemma circular_distance_le:
  "0 \<le> a \<Longrightarrow> a < 11059200 \<Longrightarrow> 0 \<le> b \<Longrightarrow> b < 11059200 \<Longrightarrow>
     circular_distance a b \<le> 5529600"
  unfolding circular_distance_def by linarith

lemma spec_distance_cases:
  "refTOD < maxTOD \<Longrightarrow>
     (uint T < 11059200 \<and> spec_distance refTOD T \<le> 5529600) \<or>
     (11059200 \<le> uint T \<and> spec_distance refTOD T = 11059200)"
  unfolding spec_distance_def
  using circular_distance_le [of "uint T" "uint refTOD"] uint_ge_0 [of T] uint_ge_0 [of refTOD]
  by (auto simp add: word_less_def maxTOD_def)

lemma A_or_B_valid:
  assumes "refTOD < maxTOD"
  shows "uint (todA l refTOD) < 11059200 \<or> uint (todB l refTOD) < 11059200"
proof -
  have r: "uint refTOD < 11059200" using assms by (simp add: word_less_def maxTOD_def)
  then have "uint refTOD div 65536 \<le> 168" by simp
  then have "uint refTOD div 65536 * 65536 \<le> 168 * 65536" by simp
  then show ?thesis
    using uint_lsp_bound [of l] unfolding uint_todA uint_todB
    by (cases "0 < uint refTOD div 65536") auto
qed

lemma spec_closest_valid:
  assumes "refTOD < maxTOD"
  shows "uint (spec_closest l refTOD) < 11059200"
  using spec_distance_cases [OF assms, of "todA l refTOD"]
    spec_distance_cases [OF assms, of "todB l refTOD"]
    spec_distance_cases [OF assms, of "todC l refTOD"]
    A_or_B_valid [OF assms, of l]
  unfolding spec_closest_def Let_def spec_candidates
  by (auto split: if_splits)

lemma spec_closest_low16: "spec_closest l refTOD AND 0xFFFF = ucast l"
proof -
  have "todA l refTOD AND 0xFFFF = ucast l"
    by (rule low16 [OF uint_todA])
  moreover have "todB l refTOD AND 0xFFFF = ucast l"
    by (cases "0 < uint refTOD div 65536")
      (auto intro: low16 [where k = "uint refTOD div 65536 - 1"] low16 [where k = 168]
        simp add: uint_todB)
  moreover have "todC l refTOD AND 0xFFFF = ucast l"
    by (cases "uint refTOD div 65536 < 168")
      (auto intro: low16 [where k = "uint refTOD div 65536 + 1"] low16 [where k = 0]
        simp add: uint_todC)
  ultimately show ?thesis
    unfolding spec_closest_def Let_def spec_candidates by simp
qed

text \<open>
  Claim C1. For every 16-bit \<open>lsp\<close> and every reference \<open>ref\<close> in \<open>[0, MAX_TOD)\<close>,
  with \<open>MAX_TOD = 86400 * 128\<close>, the value \<open>T\<close> returned by \<open>expandTruncatedTime\<close> lies in
  \<open>[0, MAX_TOD)\<close>, its low 16 bits are \<open>lsp\<close>, and the circular distance between \<open>T\<close>
  and \<open>ref\<close> is at most \<open>HALF_DAY = MAX_TOD / 2\<close>.
\<close>

theorem expandTruncatedTime_in_day:
  assumes "refTOD < maxTOD"
  shows "expandTruncatedTime lsp refTOD < maxTOD
       \<and> expandTruncatedTime lsp refTOD AND 0xFFFF = ucast lsp
       \<and> circular_distance (uint (expandTruncatedTime lsp refTOD)) (uint refTOD) \<le> uint HALF_DAY"
proof -
  let ?T = "expandTruncatedTime lsp refTOD"
  have e: "?T = spec_closest lsp refTOD" by (rule expandTruncatedTime_spec_closest [OF assms])
  have v: "uint ?T < 11059200" unfolding e by (rule spec_closest_valid [OF assms])
  have r: "uint refTOD < 11059200" using assms by (simp add: word_less_def maxTOD_def)
  have h: "uint HALF_DAY = 5529600" by (simp add: HALF_DAY_def maxTOD_def)
  have "?T < maxTOD" using v by (simp add: word_less_def maxTOD_def)
  moreover have "?T AND 0xFFFF = ucast lsp" unfolding e by (rule spec_closest_low16)
  moreover have "circular_distance (uint ?T) (uint refTOD) \<le> uint HALF_DAY"
    unfolding h using circular_distance_le [OF _ v _ r] by simp
  ultimately show ?thesis by simp
qed

text \<open>
  The theorem at a reference sixteen ticks before midnight and a truncated clock sixteen
  ticks after it: the expansion is on the next day's first window.
\<close>

theorem expandTruncatedTime_in_day_witness:
  "(0xA8BFF0 :: 32 word) < maxTOD
     \<and> expandTruncatedTime 0x0010 0xA8BFF0 < maxTOD
     \<and> expandTruncatedTime 0x0010 0xA8BFF0 AND 0xFFFF = ucast (0x0010 :: 16 word)
     \<and> circular_distance (uint (expandTruncatedTime 0x0010 0xA8BFF0)) (uint (0xA8BFF0 :: 32 word))
         \<le> uint HALF_DAY"
proof -
  have h: "(0xA8BFF0 :: 32 word) < maxTOD" by (simp add: maxTOD_def)
  show ?thesis using h expandTruncatedTime_in_day [OF h, of "0x0010"] by simp
qed

text \<open>
  Claim C2. For every \<open>lsp\<close> and every \<open>ref\<close> in \<open>[0, MAX_TOD)\<close>, \<open>expandTruncatedTime\<close>
  returns the candidate among A, B and C that is closest to \<open>ref\<close> by circular distance,
  candidates at or beyond \<open>MAX_TOD\<close> having distance \<open>MAX_TOD\<close>, ties going to A first,
  then B. For \<open>ref = 0x00123456\<close> and \<open>lsp = 0x5678\<close> the result is \<open>0x00125678\<close>.
\<close>

theorem expandTruncatedTime_closest:
  "refTOD < maxTOD \<Longrightarrow> expandTruncatedTime lsp refTOD = spec_closest lsp refTOD"
  by (rule expandTruncatedTime_spec_closest)

theorem expandTruncatedTime_closest_witness:
  "(0x00123456 :: 32 word) < maxTOD
     \<and> expandTruncatedTime 0x5678 0x00123456 = 0x00125678
     \<and> spec_closest 0x5678 0x00123456 = 0x00125678"
proof -
  have h: "(0x00123456 :: 32 word) < maxTOD" by (simp add: maxTOD_def)
  have v: "expandTruncatedTime 0x5678 0x00123456 = 0x00125678"
    by (simp add: expandTruncatedTime_def todA_def todB_def todC_def getDist_def
        kMspMask_def kTopMsp_def maxTOD_def kWindow_def HALF_DAY_def)
  show ?thesis using h v expandTruncatedTime_closest [OF h, of "0x5678"] by simp
qed

section \<open>Properties of the size rules\<close>

lemma extended_scan_found:
  assumes "0 < step" "length data + step \<le> SIZE_MOD"
    and "\<forall>m<n. bit (data ! (start + m * step)) 0"
    and "start + n * step < length data"
    and "\<not> bit (data ! (start + n * step)) 0"
  shows "extended_scan step data start = Some (start + n * step)"
  using assms(3-)
proof (induction n arbitrary: start)
  case 0
  then show ?case by (subst extended_scan.simps) simp
next
  case (Suc n)
  have lt: "start < length data" using Suc.prems(2) by simp
  have b0: "bit (data ! start) 0" using Suc.prems(1) [rule_format, of 0] by simp
  have nm: "(start + step) mod SIZE_MOD = start + step"
    using lt assms(2) by simp
  have "extended_scan step data (start + step) = Some (start + step + n * step)"
  proof (rule Suc.IH)
    show "\<forall>m<n. bit (data ! (start + step + m * step)) 0"
      using Suc.prems(1) by (auto simp: add.assoc dest: spec [where x = "Suc _"])
    show "start + step + n * step < length data" using Suc.prems(2) by (simp add: add.assoc)
    show "\<not> bit (data ! (start + step + n * step)) 0" using Suc.prems(3) by (simp add: add.assoc)
  qed
  then show ?case
    using lt b0 nm by (subst extended_scan.simps) (simp add: add.assoc)
qed

lemma extended_scan_exhausted:
  assumes "0 < step" "length data + step \<le> SIZE_MOD"
    and "\<forall>n. start + n * step < length data \<longrightarrow> bit (data ! (start + n * step)) 0"
  shows "\<exists>p. extended_scan step data start = Some p \<and> length data \<le> p
           \<and> (p = start \<or> p < length data + step)"
  using assms(3)
proof (induction "length data - start" arbitrary: start rule: less_induct)
  case less
  show ?case
  proof (cases "start < length data")
    case False
    then show ?thesis by (subst extended_scan.simps) simp
  next
    case True
    have b0: "bit (data ! start) 0" using less.prems [rule_format, of 0] True by simp
    have nm: "(start + step) mod SIZE_MOD = start + step"
      using True assms(2) by simp
    have "\<exists>p. extended_scan step data (start + step) = Some p \<and> length data \<le> p
           \<and> (p = start + step \<or> p < length data + step)"
    proof (rule less.hyps)
      show "length data - (start + step) < length data - start"
        using True assms(1) by simp
      show "\<forall>n. start + step + n * step < length data \<longrightarrow> bit (data ! (start + step + n * step)) 0"
        using less.prems by (auto simp: add.assoc dest: spec [where x = "Suc _"])
    qed
    then obtain p where p: "extended_scan step data (start + step) = Some p" "length data \<le> p"
      "p = start + step \<or> p < length data + step" by blast
    have "p < length data + step" using p(3) True by auto
    then show ?thesis
      using True b0 nm p by (subst extended_scan.simps) simp
  qed
qed

lemma extended_getSize_spec:
  assumes "0 < i" "0 < k" "length data + 255 < SIZE_MOD"
  shows "extended_getSize k i data = Some (spec_extended_size (unat k - 1) (unat i) data)"
proof -
  let ?start = "unat k - 1" and ?step = "unat i"
  let ?P = "\<lambda>j. j < length data \<and> \<not> bit (data ! j) 0"
  let ?xs = "map (\<lambda>n. ?start + n * ?step) [0..<length data]"
  have step: "0 < ?step" using assms(1) by (simp add: word_less_nat_alt)
  have kpos: "0 < unat k" using assms(2) by (simp add: word_less_nat_alt)
  have ub: "unat i \<le> 255" "unat k \<le> 255"
    using unsigned_less [of i, where 'a = nat] unsigned_less [of k, where 'a = nat] by simp_all
  have bound: "length data + ?step \<le> SIZE_MOD" using assms(3) ub by simp
  have "unat k + SIZE_MOD - 1 = ?start + SIZE_MOD" using kpos by simp
  moreover have "?start < SIZE_MOD" using ub by (simp add: SIZE_MOD_def)
  ultimately have start: "(unat k + SIZE_MOD - 1) mod SIZE_MOD = ?start"
    by (simp only: mod_add_self2 mod_less)
  show ?thesis
  proof (cases "find ?P ?xs")
    case None
    then have "\<forall>n<length data. \<not> ?P (?start + n * ?step)"
      by (auto simp: find_None_iff)
    moreover have "n < length data" if "?start + n * ?step < length data" for n
    proof -
      have "n \<le> n * ?step" using step by simp
      with that show ?thesis by linarith
    qed
    ultimately have "\<forall>n. ?start + n * ?step < length data \<longrightarrow> bit (data ! (?start + n * ?step)) 0"
      by blast
    from extended_scan_exhausted [OF step bound this]
    obtain p where p: "extended_scan ?step data ?start = Some p" "length data \<le> p"
      "p = ?start \<or> p < length data + ?step" by blast
    have "p + 1 < SIZE_MOD" using p(3) ub assms(3) by auto
    then have "(p + 1) mod SIZE_MOD = p + 1" by simp
    then show ?thesis
      using p None unfolding extended_getSize_def start spec_extended_size_def by simp
  next
    case (Some j)
    then obtain n where n: "n < length data" "?P (?start + n * ?step)" "j = ?start + n * ?step"
      "\<forall>m<n. \<not> ?P (?start + m * ?step)"
      by (auto simp: find_Some_iff)
    have "bit (data ! (?start + m * ?step)) 0" if "m < n" for m
    proof -
      have "m * ?step \<le> n * ?step" using that by simp
      then have "?start + m * ?step < length data" using n(2) by linarith
      with n(4) that show ?thesis by blast
    qed
    then have "\<forall>m<n. bit (data ! (?start + m * ?step)) 0" by blast
    from extended_scan_found [OF step bound this] n(2)
    have s: "extended_scan ?step data ?start = Some j" unfolding n(3) by blast
    have "j + 1 \<le> length data" using n(2,3) by simp
    moreover from this have "(j + 1) mod SIZE_MOD = j + 1" using assms(3) by simp
    ultimately show ?thesis
      using s Some unfolding extended_getSize_def start spec_extended_size_def by simp
  qed
qed

lemma extended_getSize_k0:
  assumes "length data < SIZE_MOD"
  shows "extended_getSize 0 i data = Some 0"
proof -
  have "extended_scan (unat i) data (SIZE_MOD - 1) = Some (SIZE_MOD - 1)"
    using assms by (subst extended_scan.simps) (simp add: SIZE_MOD_def)
  then show ?thesis
    by (simp add: extended_getSize_def SIZE_MOD_def)
qed

text \<open>
  Claim C9, as amended. A fixed-length handler constructed with \<open>n\<close> reports size \<open>n\<close>
  whatever the view holds. An extended-length handler constructed with \<open>(k, i)\<close>, \<open>i \<ge> 1\<close>,
  returns, on every view: for \<open>k \<ge> 1\<close> the size \<open>j + 1\<close> where \<open>j\<close> is the first index
  reached from \<open>k - 1\<close> in steps of \<open>i\<close> whose byte has bit 0 clear, and 0 when the data runs
  out before such a byte is found; for \<open>k = 0\<close> it returns 0.
\<close>

theorem getSize_rules:
  "fixed_getSize n data = unat n
   \<and> (0 < i \<longrightarrow> length data + 255 < SIZE_MOD \<longrightarrow>
        extended_getSize k i data =
          Some (if k = 0 then 0 else spec_extended_size (unat k - 1) (unat i) data))"
proof -
  have "extended_getSize k i data = Some (spec_extended_size (unat k - 1) (unat i) data)"
    if "0 < i" "length data + 255 < SIZE_MOD" "k \<noteq> 0"
    using that by (intro extended_getSize_spec) (simp_all add: word_greater_zero_iff)
  moreover have "extended_getSize k i data = Some 0"
    if "length data + 255 < SIZE_MOD" "k = 0"
    using that extended_getSize_k0 [of data i] by simp
  ultimately show ?thesis by (simp add: fixed_getSize_def)
qed

text \<open>The theorem at the handler (1, 1) and a four-byte view whose third byte ends the item.\<close>

theorem getSize_rules_witness:
  "fixed_getSize 4 [1, 1, 0, 5] = unat (4 :: byte)
   \<and> (0 :: byte) < 1 \<and> length [1, 1, 0, 5 :: byte] + 255 < SIZE_MOD
   \<and> extended_getSize 1 1 [1, 1, 0, 5] = Some 3
   \<and> spec_extended_size (unat (1 :: byte) - 1) (unat (1 :: byte)) [1, 1, 0, 5] = 3"
proof -
  have s: "spec_extended_size (unat (1 :: byte) - 1) (unat (1 :: byte)) [1, 1, 0, 5] = 3"
    by (simp add: spec_extended_size_def upt_rec)
  show ?thesis
    using getSize_rules [of 4 "[1, 1, 0, 5]" 1 1] s by (simp add: SIZE_MOD_def)
qed

text \<open>
  Claim C9 as stated, for every \<open>(k, i)\<close>, fails at \<open>i = 0\<close>: the handler (1, 0) on the
  one-byte view \<open>01\<close> reports no size at all, because the scan never leaves index 0.
\<close>

theorem extended_getSize_diverges: "extended_getSize 1 0 [1] = None"
proof -
  have "\<not> (i = 0 \<and> d = [1] \<and> p = 0)" if "extended_scan i d p = Some y" for i d p y
    using that
    by (rule extended_scan.raw_induct
          [rotated, where P = "\<lambda>i d p y. \<not> (i = 0 \<and> d = [1] \<and> p = 0)"])
       (fastforce split: if_splits simp: SIZE_MOD_def)
  then have "extended_scan 0 [1] 0 = None" by (cases "extended_scan 0 [1] 0") auto
  then show ?thesis by (simp add: extended_getSize_def SIZE_MOD_def)
qed

section \<open>Properties of the FSPEC walk\<close>

lemma walk_frame_refl: "walk_frame w w"
  by (simp add: walk_frame_def stats_frame_def)

lemma walk_frame_trans: "walk_frame w w' \<Longrightarrow> walk_frame w' w'' \<Longrightarrow> walk_frame w w''"
  by (simp add: walk_frame_def stats_frame_def)

lemma walk_frame_aborts:
  "walk_frame w (snd (abort_malformedRecords w))"
  "walk_frame w (snd (abort_unhandledItems w))"
  by (simp_all add: walk_frame_def stats_frame_def abort_malformedRecords_def abort_unhandledItems_def)

lemma processItemBits_props:
  "processItemBits c frn_base itemBits w = Inr (r, w') \<Longrightarrow>
     walk_frame w w' \<and> (walk_inv payload w \<longrightarrow> walk_inv payload w') \<and> (r = None \<or> r = Some 0)"
proof (induction c frn_base itemBits w rule: processItemBits.induct)
  case (1 c frn_base itemBits w)
  show ?case
  proof (cases "itemBits = 0")
    case True
    with "1.prems" show ?thesis
      by (simp add: processItemBits.simps walk_frame_refl)
  next
    case False
    let ?offset = "item_offset itemBits"
    let ?idx = "uint (frn_base + of_nat ?offset) - 1"
    from "1.prems" False have inr: "\<not> (?idx < 0 \<or> int MAX_FRNS \<le> ?idx)"
      by (auto simp: processItemBits.simps [of c frn_base itemBits w] Let_def split: if_splits)
    show ?thesis
    proof (cases "itemLookup c ! nat ?idx")
      case None
      with "1.prems" False inr show ?thesis
        using walk_frame_aborts(2) [of w]
        by (auto simp: processItemBits.simps [of c frn_base itemBits w] Let_def
            abort_unhandledItems_def walk_inv_def)
    next
      case (Some handler)
      show ?thesis
      proof (cases "getSize handler (remainingData w)")
        case None
        with "1.prems" False inr Some show ?thesis
          by (simp add: processItemBits.simps [of c frn_base itemBits w] Let_def)
      next
        case size: (Some itemSize)
        show ?thesis
        proof (cases "itemSize = 0 \<or> itemSize > length (remainingData w)")
          case True
          with "1.prems" False inr Some size show ?thesis
            using walk_frame_aborts(1) [of w]
            by (auto simp: processItemBits.simps [of c frn_base itemBits w] Let_def
                abort_malformedRecords_def walk_inv_def)
        next
          case ok: False
          show ?thesis
          proof (cases "decode handler (ctx w) (take itemSize (remainingData w))")
            case (Inl e)
            with "1.prems" False inr Some size ok show ?thesis
              by (simp add: processItemBits.simps [of c frn_base itemBits w] Let_def)
          next
            case (Inr ctx')
            let ?w1 = "w\<lparr>ctx := ctx', remainingData := drop itemSize (remainingData w),
                          decoded := decoded w @ [itemSize]\<rparr>"
            from "1.prems" False inr Some size ok Inr
            have rec: "processItemBits c frn_base (clear_item_bit itemBits ?offset) ?w1 = Inr (r, w')"
              by (simp add: processItemBits.simps [of c frn_base itemBits w] Let_def)
            have ih: "walk_frame ?w1 w' \<and> (walk_inv payload ?w1 \<longrightarrow> walk_inv payload w')
                        \<and> (r = None \<or> r = Some 0)"
              using "1.IH" [OF False refl refl refl inr Some size ok Inr rec] .
            have f1: "walk_frame w ?w1"
              by (simp add: walk_frame_def stats_frame_def)
            have i1: "walk_inv payload ?w1" if "walk_inv payload w"
              using that ok by (auto simp: walk_inv_def add.commute)
            from ih f1 i1 show ?thesis
              by (auto intro: walk_frame_trans)
          qed
        qed
      qed
    qed
  qed
qed

lemma walkFspec_props:
  "walkFspec c payload frn_base fspec w = Inr (n, w') \<Longrightarrow> walk_inv payload w \<Longrightarrow>
     walk_frame w w' \<and> walk_inv payload w'
       \<and> (0 < n \<longrightarrow> n = sum_list (decoded w') \<and> n = length payload - length (remainingData w'))"
proof (induction fspec arbitrary: frn_base w)
  case Nil
  then show ?case
    using walk_frame_aborts(1) [of w]
    by (auto simp: abort_malformedRecords_def walk_inv_def)
next
  case (Cons fspecByte rest)
  from Cons.prems(1) obtain r w1 where
    items: "processItemBits c frn_base (fspecByte AND 0xFE) w = Inr (r, w1)"
    by (auto split: sum.splits)
  from processItemBits_props [OF items, of payload] Cons.prems(2)
  have p1: "walk_frame w w1" "walk_inv payload w1" "r = None \<or> r = Some 0" by auto
  show ?case
  proof (cases r)
    case (Some k)
    with p1(3) have "k = 0" by simp
    with Cons.prems(1) items Some p1 show ?thesis by auto
  next
    case None
    show ?thesis
    proof (cases "fspecByte AND 0x01 = 0")
      case True
      with Cons.prems(1) items None have "n = length payload - length (remainingData w1)" "w' = w1"
        by auto
      with p1 show ?thesis by (auto simp: walk_inv_def)
    next
      case False
      with Cons.prems(1) items None
      have "walkFspec c payload (frn_base + 7) rest w1 = Inr (n, w')" by auto
      from Cons.IH [OF this p1(2)] p1(1) show ?thesis
        by (auto intro: walk_frame_trans)
    qed
  qed
qed

lemma mandatoryMissing_iff:
  "mandatoryMissing required fspec i n \<longleftrightarrow>
     (\<exists>j. i \<le> j \<and> j < n \<and> (required ! j) AND NOT (fspec ! j) \<noteq> 0)"
proof (induction required fspec i n rule: mandatoryMissing.induct)
  case (1 required fspec i n)
  show ?case
  proof (cases "i < n")
    case False
    then show ?thesis by (subst mandatoryMissing.simps) auto
  next
    case True
    show ?thesis
    proof (cases "(required ! i) AND NOT (fspec ! i) \<noteq> 0")
      case hit: True
      with True show ?thesis by (subst mandatoryMissing.simps) auto
    next
      case miss: False
      have "mandatoryMissing required fspec i n = mandatoryMissing required fspec (i + 1) n"
        using True miss by (subst mandatoryMissing.simps) simp
      also have "\<dots> \<longleftrightarrow> (\<exists>j. i + 1 \<le> j \<and> j < n \<and> (required ! j) AND NOT (fspec ! j) \<noteq> 0)"
        using "1.IH" [OF True miss] .
      also have "\<dots> \<longleftrightarrow> (\<exists>j. i \<le> j \<and> j < n \<and> (required ! j) AND NOT (fspec ! j) \<noteq> 0)"
        using miss by (metis Suc_eq_plus1 Suc_leI le_neq_implies_less le_eq_less_or_eq Suc_le_lessD)
      finally show ?thesis .
    qed
  qed
qed

lemma internal_violation:
  assumes "fspec_violation c fspec"
  shows "processDataRecordInternal c fspec payload rep st =
           Inr (abort_protocolViolations (start_walk payload rep st))"
  using assms
  by (auto simp: processDataRecordInternal_def fspec_violation_def mandatoryMissing_iff
      start_walk_def Let_def)

lemma internal_conformant:
  assumes "\<not> fspec_violation c fspec"
  shows "processDataRecordInternal c fspec payload rep st =
           walkFspec c payload 1 fspec (start_walk payload rep st)"
  using assms
  by (auto simp: processDataRecordInternal_def fspec_violation_def mandatoryMissing_iff
      start_walk_def Let_def)

lemma start_walk_inv: "walk_inv payload (start_walk payload rep st)"
  by (simp add: walk_inv_def start_walk_def)

subsection \<open>The category 001 table, evaluated\<close>

lemma Asterix1Handler_table:
  "mandatoryFspecSize Asterix1Handler = 1"
  "mandatoryFspec Asterix1Handler ! 0 = 0xC0"
  "itemLookup Asterix1Handler ! 0 = Some I001_010_Handler"
  "itemLookup Asterix1Handler ! Suc 0 = Some I001_020_Handler"
  "itemLookup Asterix1Handler ! 2 = Some I001_040_Handler"
  "itemLookup Asterix1Handler ! 3 = Some I001_070_Handler"
  "itemLookup Asterix1Handler ! 4 = Some I001_090_Handler"
  by (simp_all add: Asterix1Handler_def Asterix1Handler_registerHandlers_def addHandler_def
      new_category_handler_def MAX_FRNS_def isMandatory_def Let_def
      I001_010_Handler_def I001_020_Handler_def I001_040_Handler_def I001_070_Handler_def
      I001_090_Handler_def I001_130_Handler_def I001_141_Handler_def I001_050_Handler_def
      I001_131_Handler_def I001_150_Handler_def)

lemmas handler_defs =
  I001_010_Handler_def I001_020_Handler_def I001_040_Handler_def I001_070_Handler_def
  I001_090_Handler_def I001_130_Handler_def I001_141_Handler_def I001_050_Handler_def
  I001_131_Handler_def I001_150_Handler_def

lemmas decode_defs =
  I001_010_decode_def I001_020_decode_def I001_040_decode_def I001_070_decode_def
  I001_090_decode_def I001_141_decode_def base_decode_def ntohs_def

lemmas walk_eval =
  processDataRecordInternal_def Asterix1Handler_table mandatoryMissing.simps
  processItemBits.simps item_offset_cases clear_item_bit_def MAX_FRNS_def getSize_def
  fixed_getSize_def extended_getSize_def extended_scan.simps SIZE_MOD_def
  abort_protocolViolations_def abort_malformedRecords_def abort_unhandledItems_def

lemmas packet_eval =
  handlePacket_def blockLoop.simps processDataBlock_def readBe16_def recordLoop.simps
  dispatchRecord_def scanFspec.simps cat1_only_def Asterix1Handler_processDataRecord_def
  HEADER_SIZE_def MIN_BLOCK_SIZE_def MAX_FSPEC_SIZE_def FX_BIT_def

text \<open>
  Claim C7. \<open>_processDataRecordInternal\<close> returns 0 and increments \<open>protocolViolations\<close>
  exactly when the received FSPEC is shorter than \<open>mandatoryFspecSize\<close> or some byte
  \<open>i < mandatoryFspecSize\<close> has \<open>(mandatoryFspec[i] & ~fspec[i]) != 0\<close>; in that case no item
  handler has decoded: the report and the remaining payload are untouched.
\<close>

theorem processDataRecordInternal_violation:
  "((\<exists>w. processDataRecordInternal c fspec payload rep st = Inr (0, w)
         \<and> protocolViolations (stats w) = protocolViolations st + 1)
      \<longleftrightarrow> fspec_violation c fspec)
   \<and> (fspec_violation c fspec \<longrightarrow>
        processDataRecordInternal c fspec payload rep st =
          Inr (0, \<lparr>remainingData = payload, ctx = rep,
                   stats = st\<lparr>protocolViolations := protocolViolations st + 1\<rparr>,
                   decoded = []\<rparr>))"
proof -
  have v: "processDataRecordInternal c fspec payload rep st =
          Inr (0, \<lparr>remainingData = payload, ctx = rep,
                   stats = st\<lparr>protocolViolations := protocolViolations st + 1\<rparr>,
                   decoded = []\<rparr>)" if "fspec_violation c fspec"
    using internal_violation [OF that, of payload rep st]
    by (simp add: abort_protocolViolations_def start_walk_def)
  have n: "protocolViolations (stats w) = protocolViolations st"
    if "\<not> fspec_violation c fspec" "processDataRecordInternal c fspec payload rep st = Inr (k, w)"
    for k w
  proof -
    from that have "walkFspec c payload 1 fspec (start_walk payload rep st) = Inr (k, w)"
      by (simp add: internal_conformant)
    from walkFspec_props [OF this start_walk_inv] show ?thesis
      by (simp add: walk_frame_def stats_frame_def start_walk_def)
  qed
  show ?thesis
  proof (cases "fspec_violation c fspec")
    case True
    with v show ?thesis by simp
  next
    case False
    with n show ?thesis by auto
  qed
qed

text \<open>
  The theorem at the category 001 table and the FSPEC \<open>40\<close>, which lacks the mandatory
  I001/010.
\<close>

theorem processDataRecordInternal_violation_witness:
  "fspec_violation Asterix1Handler [0x40]
   \<and> processDataRecordInternal Asterix1Handler [0x40] [0x01, 0x02, 0x80] new_Asterix1Report new_stats
       = Inr (0, \<lparr>remainingData = [0x01, 0x02, 0x80], ctx = new_Asterix1Report,
                 stats = new_stats\<lparr>protocolViolations := 1\<rparr>, decoded = []\<rparr>)"
proof -
  have v: "fspec_violation Asterix1Handler [0x40]"
    by (simp add: fspec_violation_def Asterix1Handler_table)
  show ?thesis
    using v processDataRecordInternal_violation
      [of Asterix1Handler "[0x40]" "[0x01, 0x02, 0x80]" new_Asterix1Report new_stats]
    by (simp add: new_stats_def)
qed

subsection \<open>Bytes consumed by a record\<close>

lemma processDataRecordInternal_consumed:
  assumes "processDataRecordInternal c fspec payload rep st = Inr (n, w)" and "0 < n"
  shows "n = length payload - length (remainingData w) \<and> n = sum_list (decoded w)
           \<and> remainingData w = drop n payload \<and> n \<le> length payload"
proof -
  have "\<not> fspec_violation c fspec"
    using assms internal_violation [of c fspec payload rep st]
    by (auto simp: abort_protocolViolations_def)
  with assms(1) have "walkFspec c payload 1 fspec (start_walk payload rep st) = Inr (n, w)"
    by (simp add: internal_conformant)
  from walkFspec_props [OF this start_walk_inv] assms(2) show ?thesis
    by (auto simp: walk_inv_def)
qed

text \<open>
  Claim C8. When \<open>_processDataRecordInternal\<close> returns a positive count, the count is
  \<open>payload.size() - remainingData.size()\<close> and equals the sum of the sizes of the decoded
  items; the count \<open>dispatchRecord\<close> reports for the record is the FSPEC length plus that sum.
\<close>

theorem record_consumed_bytes:
  "(processDataRecordInternal c fspec payload rep st = Inr (n, w) \<and> 0 < n \<longrightarrow>
      n = length payload - length (remainingData w) \<and> n = sum_list (decoded w)
        \<and> remainingData w = drop n payload)
   \<and> (dispatchRecord recordView (Asterix1Handler_processDataRecord c) s = Inr (recordBytes, s') \<and> 0 < recordBytes \<longrightarrow>
        (\<exists>fspecSize lastDataIdx lastDataValue w'.
           scanFspec recordView 0 0 0 = Some (fspecSize, lastDataIdx, lastDataValue) \<and>
           length (take fspecSize recordView) = fspecSize \<and>
           processDataRecordInternal c (take fspecSize recordView) (drop fspecSize recordView)
             new_Asterix1Report (fst s) = Inr (recordBytes - fspecSize, w') \<and>
           recordBytes = fspecSize + sum_list (decoded w')))"
proof (intro conjI impI)
  assume a: "processDataRecordInternal c fspec payload rep st = Inr (n, w) \<and> 0 < n"
  then have r: "processDataRecordInternal c fspec payload rep st = Inr (n, w)" "0 < n"
    by blast+
  from processDataRecordInternal_consumed [OF r]
  show "n = length payload - length (remainingData w)" "n = sum_list (decoded w)"
    "remainingData w = drop n payload"
    by blast+
next
  assume a: "dispatchRecord recordView (Asterix1Handler_processDataRecord c) s = Inr (recordBytes, s') \<and> 0 < recordBytes"
  then obtain fspecSize lastDataIdx lastDataValue consumed where
    sc: "scanFspec recordView 0 0 0 = Some (fspecSize, lastDataIdx, lastDataValue)"
    and le: "fspecSize \<le> length recordView"
    and h: "Asterix1Handler_processDataRecord c (take fspecSize recordView)
              (drop fspecSize recordView) s = Inr (consumed, s')"
    and t: "recordBytes = fspecSize + consumed" "0 < consumed"
    by (auto simp: dispatchRecord_def split: option.splits if_splits sum.splits prod.splits)
  from h t(2) obtain w' where
    i: "processDataRecordInternal c (take fspecSize recordView) (drop fspecSize recordView)
          new_Asterix1Report (fst s) = Inr (consumed, w')"
    by (auto simp: Asterix1Handler_processDataRecord_def Let_def
        split: sum.splits prod.splits if_splits)
  from processDataRecordInternal_consumed [OF i t(2)] have "consumed = sum_list (decoded w')"
    by blast
  with sc le i t show "\<exists>fspecSize lastDataIdx lastDataValue w'.
           scanFspec recordView 0 0 0 = Some (fspecSize, lastDataIdx, lastDataValue) \<and>
           length (take fspecSize recordView) = fspecSize \<and>
           processDataRecordInternal c (take fspecSize recordView) (drop fspecSize recordView)
             new_Asterix1Report (fst s) = Inr (recordBytes - fspecSize, w') \<and>
           recordBytes = fspecSize + sum_list (decoded w')"
    by (intro exI [of _ fspecSize] exI [of _ lastDataIdx] exI [of _ lastDataValue] exI [of _ w'])
       simp
qed

text \<open>
  The theorem at a category 001 record with FSPEC \<open>F8\<close> and the items I001/010, 020, 040,
  070 and 090: 11 payload bytes, 12 bytes in all.
\<close>

theorem record_consumed_bytes_witness:
  "processDataRecordInternal Asterix1Handler [0xF8]
       [0x01, 0x02, 0x20, 0x00, 0x80, 0x40, 0x00, 0x00, 0x00, 0x00, 0x00] new_Asterix1Report new_stats
     = Inr (11, \<lparr>remainingData = [],
                  ctx = new_Asterix1Report\<lparr>sourceIdentifier := (1, 2), ssrpsr := 2,
                           rawRange := 0x80, rawAzimuth := 0x4000,
                           mode3A := Some (0, False, False, False),
                           ssrHeight := Some (0, False, False)\<rparr>,
                  stats = new_stats, decoded = [2, 1, 4, 2, 2]\<rparr>)
   \<and> (11 :: nat) = length [0x01, 0x02, 0x20, 0x00, 0x80, 0x40, 0x00, 0x00, 0x00, 0x00, 0x00 :: byte] - length ([] :: view)
   \<and> (11 :: nat) = sum_list [2, 1, 4, 2, 2]
   \<and> dispatchRecord [0xF8, 0x01, 0x02, 0x20, 0x00, 0x80, 0x40, 0x00, 0x00, 0x00, 0x00, 0x00]
        (Asterix1Handler_processDataRecord Asterix1Handler) (new_stats, new_world)
     = Inr (12, (new_stats,
              new_world\<lparr>sources := [(1, 2) \<mapsto> 0],
                         delivered := [new_Asterix1Report\<lparr>sourceIdentifier := (1, 2), ssrpsr := 2,
                           rawRange := 0x80, rawAzimuth := 0x4000,
                           mode3A := Some (0, False, False, False),
                           ssrHeight := Some (0, False, False)\<rparr>]\<rparr>))
   \<and> (\<exists>fspecSize lastDataIdx lastDataValue w'.
           scanFspec [0xF8, 0x01, 0x02, 0x20, 0x00, 0x80, 0x40, 0x00, 0x00, 0x00, 0x00, 0x00] 0 0 0
             = Some (fspecSize, lastDataIdx, lastDataValue) \<and>
           length (take fspecSize
             [0xF8, 0x01, 0x02, 0x20, 0x00, 0x80, 0x40, 0x00, 0x00, 0x00, 0x00, 0x00 :: byte]) = fspecSize \<and>
           processDataRecordInternal Asterix1Handler
             (take fspecSize [0xF8, 0x01, 0x02, 0x20, 0x00, 0x80, 0x40, 0x00, 0x00, 0x00, 0x00, 0x00])
             (drop fspecSize [0xF8, 0x01, 0x02, 0x20, 0x00, 0x80, 0x40, 0x00, 0x00, 0x00, 0x00, 0x00])
             new_Asterix1Report (fst (new_stats, new_world)) = Inr (12 - fspecSize, w') \<and>
           12 = fspecSize + sum_list (decoded w'))"
proof -
  let ?P = "[0x01, 0x02, 0x20, 0x00, 0x80, 0x40, 0x00, 0x00, 0x00, 0x00, 0x00] :: view"
  let ?R = "new_Asterix1Report\<lparr>sourceIdentifier := (1, 2), ssrpsr := 2,
                           rawRange := 0x80, rawAzimuth := 0x4000,
                           mode3A := Some (0, False, False, False),
                           ssrHeight := Some (0, False, False)\<rparr>"
  let ?W = "\<lparr>remainingData = [], ctx = ?R, stats = new_stats, decoded = [2, 1, 4, 2, 2]\<rparr>"
  let ?S = "(new_stats, new_world\<lparr>sources := [(1, 2) \<mapsto> 0], delivered := [?R]\<rparr>)"
  have i: "processDataRecordInternal Asterix1Handler [0xF8] ?P new_Asterix1Report new_stats
             = Inr (11, ?W)"
    by (simp add: walk_eval handler_defs decode_defs Let_def new_Asterix1Report_def)
  have d: "dispatchRecord (0xF8 # ?P) (Asterix1Handler_processDataRecord Asterix1Handler)
             (new_stats, new_world) = Inr (12, ?S)"
    by (simp add: packet_eval walk_eval handler_defs decode_defs Let_def new_Asterix1Report_def
        new_world_def)
  note t = record_consumed_bytes
    [of Asterix1Handler "[0xF8]" ?P new_Asterix1Report new_stats 11 ?W
        "0xF8 # ?P" "(new_stats, new_world)" 12 ?S]
  have p: "(0 :: nat) < 11" "(0 :: nat) < 12" by simp_all
  from t [THEN conjunct1, rule_format, OF conjI [OF i p(1)]]
  have x: "11 = length ?P - length (remainingData ?W) \<and> 11 = sum_list (decoded ?W)"
    by blast
  from t [THEN conjunct2, rule_format, OF conjI [OF d p(2)]]
  have y: "\<exists>fspecSize lastDataIdx lastDataValue w'.
           scanFspec (0xF8 # ?P) 0 0 0 = Some (fspecSize, lastDataIdx, lastDataValue) \<and>
           length (take fspecSize (0xF8 # ?P)) = fspecSize \<and>
           processDataRecordInternal Asterix1Handler (take fspecSize (0xF8 # ?P))
             (drop fspecSize (0xF8 # ?P)) new_Asterix1Report (fst (new_stats, new_world))
               = Inr (12 - fspecSize, w') \<and>
           12 = fspecSize + sum_list (decoded w')" .
  have z: "(11 :: nat) = length ?P - length ([] :: view)" "(11 :: nat) = sum_list [2, 1, 4, 2, 2]"
    using x by simp_all
  show ?thesis
    by (intro conjI i d y z)
qed

section \<open>Properties of registration\<close>

lemma addHandler_mask_cases:
  "mandatoryFspec (addHandler h frn c) = mandatoryFspec c \<and>
     mandatoryFspecSize (addHandler h frn c) = mandatoryFspecSize c
   \<or> (\<exists>ih. h = Some ih \<and> isMandatory ih \<and> frn \<noteq> 0 \<and> unat frn \<le> MAX_FRNS \<and>
        mandatoryFspec (addHandler h frn c) =
          (mandatoryFspec c)[(unat frn - 1) div 7 :=
             (mandatoryFspec c ! ((unat frn - 1) div 7)) OR push_bit (7 - (unat frn - 1) mod 7) 1] \<and>
        mandatoryFspecSize (addHandler h frn c) =
          max (mandatoryFspecSize c) ((unat frn - 1) div 7 + 1))"
proof (cases h)
  case None
  then show ?thesis by (simp add: addHandler_def)
next
  case (Some ih)
  show ?thesis
  proof (cases "frn = 0 \<or> unat frn > MAX_FRNS")
    case True
    with Some show ?thesis by (simp add: addHandler_def)
  next
    case False
    show ?thesis
    proof (cases "isMandatory ih")
      case True
      with Some False show ?thesis by (simp add: addHandler_def Let_def)
    next
      case nm: False
      with Some False show ?thesis by (simp add: addHandler_def Let_def)
    qed
  qed
qed

lemma or_update_bit_mono:
  fixes xs :: view
  assumes "bit (xs ! i) n"
  shows "bit (xs[j := (xs ! j) OR m] ! i) n"
proof (cases "j < length xs")
  case True
  with assms show ?thesis by (cases "i = j") (simp_all add: bit_or_iff)
next
  case False
  with assms show ?thesis by (simp add: list_update_beyond)
qed

lemma addHandler_length:
  "length (mandatoryFspec (addHandler h frn c)) = length (mandatoryFspec c)"
  using addHandler_mask_cases [of h frn c] by (elim disjE exE conjE) simp_all

lemma addHandler_size_mono:
  "mandatoryFspecSize c \<le> mandatoryFspecSize (addHandler h frn c)"
  using addHandler_mask_cases [of h frn c] by (elim disjE exE conjE) simp_all

lemma addHandler_bit_mono:
  assumes "bit (mandatoryFspec c ! i) n"
  shows "bit (mandatoryFspec (addHandler h frn c) ! i) n"
  using addHandler_mask_cases [of h frn c] assms
  by (elim disjE exE conjE) (auto intro: or_update_bit_mono)

lemma fold_addHandler_mono:
  "length (mandatoryFspec (fold (\<lambda>(h, f). addHandler h f) calls c)) = length (mandatoryFspec c)
   \<and> mandatoryFspecSize c \<le> mandatoryFspecSize (fold (\<lambda>(h, f). addHandler h f) calls c)
   \<and> (bit (mandatoryFspec c ! i) n \<longrightarrow>
        bit (mandatoryFspec (fold (\<lambda>(h, f). addHandler h f) calls c) ! i) n)"
proof (induction calls arbitrary: c)
  case Nil
  show ?case by simp
next
  case (Cons call calls)
  obtain h f where call: "call = (h, f)" by (cases call)
  have e: "fold (\<lambda>(h, f). addHandler h f) (call # calls) c =
          fold (\<lambda>(h, f). addHandler h f) calls (addHandler h f c)"
    by (simp add: call)
  show ?case
    unfolding e
    using Cons.IH [of "addHandler h f c"] addHandler_length [of h f c]
      addHandler_size_mono [of c h f] addHandler_bit_mono [of c i n h f]
    by auto
qed

lemma addHandler_mandatory_sets:
  assumes "isMandatory h" "frn \<noteq> 0" "unat frn \<le> MAX_FRNS" "length (mandatoryFspec c) = 20"
  shows "bit (mandatoryFspec (addHandler (Some h) frn c) ! ((unat frn - 1) div 7))
           (7 - (unat frn - 1) mod 7)
       \<and> (unat frn - 1) div 7 < mandatoryFspecSize (addHandler (Some h) frn c)"
proof -
  let ?byteIdx = "(unat frn - 1) div 7" and ?bitIdx = "7 - (unat frn - 1) mod 7"
  have b: "?byteIdx < length (mandatoryFspec c)"
    using assms(3,4) by (simp add: MAX_FRNS_def)
  have g: "bit ((x :: byte) OR push_bit k 1) k" if "k < 8" for x k
    using that by (simp add: bit_simps)
  have s: "bit ((x :: byte) OR push_bit ?bitIdx 1) ?bitIdx" for x
    by (rule g) simp
  have e: "addHandler (Some h) frn c =
      (c\<lparr>mandatoryFspec := (mandatoryFspec c)[?byteIdx := (mandatoryFspec c ! ?byteIdx) OR push_bit ?bitIdx 1],
         mandatoryFspecSize := max (mandatoryFspecSize c) (?byteIdx + 1)\<rparr>)
       \<lparr>itemLookup := (itemLookup c)[unat frn - 1 := Some h]\<rparr>"
    using assms(1-3) by (simp add: addHandler_def Let_def)
  show ?thesis
    unfolding e using b s by simp
qed

text \<open>
  Claim C10. The mandatory FSPEC mask only grows: no \<open>addHandler\<close> call clears a mask bit or
  lowers \<open>mandatoryFspecSize\<close>. Once a mandatory handler has been registered at FRN \<open>f\<close>,
  bit \<open>7 - ((f - 1) % 7)\<close> of mask byte \<open>(f - 1) / 7\<close> stays set through any later
  registrations, also one that replaces the handler at \<open>f\<close> by a non-mandatory one, and a
  record whose FSPEC lacks item \<open>f\<close> is still rejected as a protocol violation.
\<close>

theorem mandatory_mask_only_grows:
  assumes "isMandatory h" and "frn \<noteq> 0" and "unat frn \<le> MAX_FRNS"
    and "length (mandatoryFspec c) = 20"
  shows "mandatoryFspecSize c0 \<le> mandatoryFspecSize (addHandler h' frn' c0)
    \<and> (bit (mandatoryFspec c0 ! i) n \<longrightarrow> bit (mandatoryFspec (addHandler h' frn' c0) ! i) n)
    \<and> (let c' = fold (\<lambda>(h, f). addHandler h f) later (addHandler (Some h) frn c);
            byteIdx = (unat frn - 1) div 7;
            bitIdx = 7 - (unat frn - 1) mod 7
        in bit (mandatoryFspec c' ! byteIdx) bitIdx
           \<and> byteIdx < mandatoryFspecSize c'
           \<and> mandatoryFspecSize (addHandler (Some h) frn c) \<le> mandatoryFspecSize c'
           \<and> (length fspec \<le> byteIdx \<or> \<not> bit (fspec ! byteIdx) bitIdx \<longrightarrow>
                processDataRecordInternal c' fspec payload rep st =
                  Inr (0, \<lparr>remainingData = payload, ctx = rep,
                           stats = st\<lparr>protocolViolations := protocolViolations st + 1\<rparr>,
                           decoded = []\<rparr>)))"
proof -
  let ?c1 = "addHandler (Some h) frn c"
  let ?c' = "fold (\<lambda>(h, f). addHandler h f) later ?c1"
  let ?byteIdx = "(unat frn - 1) div 7" and ?bitIdx = "7 - (unat frn - 1) mod 7"
  have s1: "bit (mandatoryFspec ?c1 ! ?byteIdx) ?bitIdx" "?byteIdx < mandatoryFspecSize ?c1"
    using addHandler_mandatory_sets [OF assms] by simp_all
  have m: "mandatoryFspecSize ?c1 \<le> mandatoryFspecSize ?c'"
    "bit (mandatoryFspec ?c' ! ?byteIdx) ?bitIdx"
    using fold_addHandler_mono [of later ?c1 ?byteIdx ?bitIdx] s1(1) by simp_all
  have sz: "?byteIdx < mandatoryFspecSize ?c'" using s1(2) m(1) by simp
  have v: "processDataRecordInternal ?c' fspec payload rep st =
             Inr (0, \<lparr>remainingData = payload, ctx = rep,
                      stats = st\<lparr>protocolViolations := protocolViolations st + 1\<rparr>,
                      decoded = []\<rparr>)"
    if lack: "length fspec \<le> ?byteIdx \<or> \<not> bit (fspec ! ?byteIdx) ?bitIdx"
  proof -
    have "fspec_violation ?c' fspec"
    proof (cases "length fspec < mandatoryFspecSize ?c'")
      case True
      then show ?thesis by (simp add: fspec_violation_def)
    next
      case False
      with sz lack have nb: "\<not> bit (fspec ! ?byteIdx) ?bitIdx" by auto
      have "bit ((mandatoryFspec ?c' ! ?byteIdx) AND NOT (fspec ! ?byteIdx)) ?bitIdx"
        using m(2) nb by (simp add: bit_and_iff bit_not_iff)
      then have "(mandatoryFspec ?c' ! ?byteIdx) AND NOT (fspec ! ?byteIdx) \<noteq> 0"
        by auto
      with sz show ?thesis unfolding fspec_violation_def by blast
    qed
    from internal_violation [OF this, of payload rep st] show ?thesis
      by (simp add: abort_protocolViolations_def start_walk_def)
  qed
  show ?thesis
    using addHandler_size_mono [of c0 h' frn'] addHandler_bit_mono [of c0 i n h' frn']
      m sz v
    by (simp add: Let_def)
qed

text \<open>
  The theorem at an empty table where the mandatory I001/010 is registered at FRN 1 and then
  replaced by the optional I001/040.
\<close>

theorem mandatory_mask_only_grows_witness:
  "isMandatory I001_010_Handler \<and> (1 :: byte) \<noteq> 0 \<and> unat (1 :: byte) \<le> MAX_FRNS
   \<and> length (mandatoryFspec (new_category_handler :: Asterix1Report category_handler)) = 20
   \<and> \<not> isMandatory I001_040_Handler
   \<and> bit (mandatoryFspec (fold (\<lambda>(h, f). addHandler h f) [(Some I001_040_Handler, 1)]
             (addHandler (Some I001_010_Handler) 1 new_category_handler)) ! 0) 7
   \<and> 0 < mandatoryFspecSize (fold (\<lambda>(h, f). addHandler h f) [(Some I001_040_Handler, 1)]
             (addHandler (Some I001_010_Handler) 1 new_category_handler))
   \<and> \<not> bit (0x40 :: byte) 7
   \<and> processDataRecordInternal
         (fold (\<lambda>(h, f). addHandler h f) [(Some I001_040_Handler, 1)]
             (addHandler (Some I001_010_Handler) 1 new_category_handler))
         [0x40] [0x00, 0x00, 0x00, 0x00] new_Asterix1Report new_stats
       = Inr (0, \<lparr>remainingData = [0x00, 0x00, 0x00, 0x00], ctx = new_Asterix1Report,
                  stats = new_stats\<lparr>protocolViolations := 1\<rparr>, decoded = []\<rparr>)"
proof -
  have a: "isMandatory I001_010_Handler" by (simp add: isMandatory_def I001_010_Handler_def)
  have b: "(1 :: byte) \<noteq> 0" by simp
  have c: "unat (1 :: byte) \<le> MAX_FRNS" by (simp add: MAX_FRNS_def)
  have d: "length (mandatoryFspec (new_category_handler :: Asterix1Report category_handler)) = 20"
    by (simp add: new_category_handler_def)
  have e: "\<not> isMandatory I001_040_Handler" by (simp add: isMandatory_def I001_040_Handler_def)
  have f: "\<not> bit (0x40 :: byte) 7" by simp
  from mandatory_mask_only_grows [OF a b c d,
      of new_category_handler None 0 0 0 "[(Some I001_040_Handler, 1)]" "[0x40]"
         "[0x00, 0x00, 0x00, 0x00]" new_Asterix1Report new_stats] f
  show ?thesis using a b c d e
    by (auto simp: Let_def new_stats_def)
qed

section \<open>Properties of the packet handler\<close>

lemma keeps_trailingD:
  "keeps_trailing h \<Longrightarrow> h fspec payload s = Inr (n, s') \<Longrightarrow>
     trailingBytesCount (fst s') = trailingBytesCount (fst s)"
  unfolding keeps_trailing_def by blast

lemma dispatchRecord_trailing:
  assumes "keeps_trailing h" "dispatchRecord recordView h s = Inr (n, s')"
  shows "trailingBytesCount (fst s') = trailingBytesCount (fst s)"
proof -
  have "s' = s \<or> (\<exists>k m. h (take k recordView) (drop k recordView) s = Inr (m, s'))"
    using assms(2)
    by (auto simp: dispatchRecord_def split: option.splits if_splits sum.splits prod.splits)
  then show ?thesis
  proof (elim disjE exE)
    assume "s' = s"
    then show ?thesis by simp
  next
    fix k m
    assume "h (take k recordView) (drop k recordView) s = Inr (m, s')"
    then show ?thesis by (rule keeps_trailingD [OF assms(1)])
  qed
qed

lemma recordLoop_trailing:
  "keeps_trailing h \<Longrightarrow> recordLoop h block len offset s = Inr s' \<Longrightarrow>
     trailingBytesCount (fst s') = trailingBytesCount (fst s)"
proof (induction h block len offset s rule: recordLoop.induct)
  case (1 handler block len offset s)
  show ?case
  proof (cases "offset < len")
    case False
    with "1.prems" show ?thesis by (simp add: recordLoop.simps)
  next
    case True
    from "1.prems"(2) True obtain consumed s1 where
      d: "dispatchRecord (take (len - offset) (drop offset block)) handler s = Inr (consumed, s1)"
      by (auto simp: recordLoop.simps [of handler block len offset s] split: sum.splits)
    have t1: "trailingBytesCount (fst s1) = trailingBytesCount (fst s)"
      by (rule dispatchRecord_trailing [OF "1.prems"(1) d])
    show ?thesis
    proof (cases "consumed > 0")
      case pos: True
      with "1.prems"(2) True d
      have "recordLoop handler block len (offset + consumed) s1 = Inr s'"
        by (simp add: recordLoop.simps [of handler block len offset s])
      from "1.IH" [OF True d refl pos "1.prems"(1) this] t1 show ?thesis by simp
    next
      case zero: False
      with "1.prems"(2) True d t1 show ?thesis
        by (auto simp: recordLoop.simps [of handler block len offset s])
    qed
  qed
qed

lemma processDataBlock_props:
  assumes "\<forall>cat h. hs cat = Some h \<longrightarrow> keeps_trailing h"
    and "processDataBlock hs block s = Inr (n, s')"
  shows "trailingBytesCount (fst s') = trailingBytesCount (fst s) \<and> n \<le> length block"
  using assms
  by (auto simp: processDataBlock_def Let_def
      split: if_splits option.splits sum.splits dest: recordLoop_trailing)

lemma blockLoop_props:
  "\<forall>cat h. hs cat = Some h \<longrightarrow> keeps_trailing h \<Longrightarrow>
   blockLoop hs buffer s blocks = Inr (buffer', s', blocks') \<Longrightarrow>
     trailingBytesCount (fst s') = trailingBytesCount (fst s)
     \<and> sum_list blocks' + length buffer' = sum_list blocks + length buffer"
proof (induction hs buffer s blocks rule: blockLoop.induct)
  case (1 hs buffer s blocks)
  show ?case
  proof (cases "length buffer \<ge> MIN_BLOCK_SIZE")
    case False
    with "1.prems"(2) show ?thesis by (simp add: blockLoop.simps)
  next
    case True
    from "1.prems"(2) True obtain blockLength s1 where
      b: "processDataBlock hs buffer s = Inr (blockLength, s1)"
      by (auto simp: blockLoop.simps [of hs buffer s blocks] split: sum.splits)
    from processDataBlock_props [OF "1.prems"(1) b]
    have p: "trailingBytesCount (fst s1) = trailingBytesCount (fst s)" "blockLength \<le> length buffer"
      by simp_all
    show ?thesis
    proof (cases "blockLength > 0")
      case pos: True
      with "1.prems"(2) True b
      have "blockLoop hs (drop blockLength buffer) s1 (blocks @ [blockLength]) = Inr (buffer', s', blocks')"
        by (simp add: blockLoop.simps [of hs buffer s blocks])
      from "1.IH" [OF True b refl pos "1.prems"(1) this] p show ?thesis by simp
    next
      case zero: False
      with "1.prems"(2) True b p show ?thesis
        by (auto simp: blockLoop.simps [of hs buffer s blocks])
    qed
  qed
qed

lemma internal_stats_frame:
  assumes "processDataRecordInternal c fspec payload rep st = Inr (n, w)"
  shows "trailingBytesCount (stats w) = trailingBytesCount st"
proof (cases "fspec_violation c fspec")
  case True
  from internal_violation [OF True, of payload rep st] assms show ?thesis
    by (auto simp: abort_protocolViolations_def start_walk_def)
next
  case False
  with assms have "walkFspec c payload 1 fspec (start_walk payload rep st) = Inr (n, w)"
    by (simp add: internal_conformant)
  from walkFspec_props [OF this start_walk_inv] show ?thesis
    by (simp add: walk_frame_def stats_frame_def start_walk_def)
qed

lemma Asterix1Handler_keeps_trailing: "keeps_trailing (Asterix1Handler_processDataRecord c)"
  unfolding keeps_trailing_def Asterix1Handler_processDataRecord_def
  by (fastforce simp: Let_def split: sum.splits prod.splits if_splits dest: internal_stats_frame)

text \<open>
  Claim C3. For every buffer on which \<open>handlePacket\<close> returns, the declared lengths of the
  blocks whose headers were accepted (blocks of unhandled categories included) plus the amount
  added to \<open>trailingBytesCount\<close> during the call is the length of the buffer. The category
  handlers are any that leave \<open>trailingBytesCount\<close> alone, as the category 001 handler does
  for every table of item handlers (\<open>Asterix1Handler_keeps_trailing\<close>).
\<close>

theorem handlePacket_accounts_for_every_byte:
  assumes "\<forall>cat h. categoryHandlers cat = Some h \<longrightarrow> keeps_trailing h"
    and "handlePacket categoryHandlers data s = Inr (s', blocks)"
  shows "sum_list blocks + trailingBytesCount (fst s') = trailingBytesCount (fst s) + length data"
proof (cases "length data = 0")
  case True
  with assms(2) show ?thesis by (simp add: handlePacket_def)
next
  case False
  let ?s1 = "apfst (\<lambda>st. st\<lparr>totalPackets := totalPackets st + 1\<rparr>) s"
  from assms(2) False obtain buffer s2 where
    l: "blockLoop categoryHandlers data ?s1 [] = Inr (buffer, s2, blocks)"
    by (auto simp: handlePacket_def split: sum.splits if_splits)
  from blockLoop_props [OF assms(1) l]
  have p: "trailingBytesCount (fst s2) = trailingBytesCount (fst s)"
    "sum_list blocks + length buffer = length data"
    by (simp_all add: apfst_def map_prod_def split_beta)
  from assms(2) False l have "s' = (if buffer \<noteq> [] then
      apfst (\<lambda>st. st\<lparr>trailingBytesCount := trailingBytesCount st + length buffer\<rparr>) s2 else s2)"
    by (auto simp: handlePacket_def)
  with p show ?thesis by (auto simp: apfst_def map_prod_def split_beta)
qed

text \<open>
  The theorem at a packet holding one category 001 block of 15 bytes followed by two stray
  bytes.
\<close>

theorem handlePacket_accounts_for_every_byte_witness:
  "handlePacket cat1_only
        [0x01, 0x00, 0x0F, 0xF8, 0x01, 0x02, 0x20, 0x00, 0x80, 0x40, 0x00, 0x00, 0x00, 0x00, 0x00,
         0xAA, 0xBB]
        (new_stats, new_world)
      = Inr ((new_stats\<lparr>totalPackets := 1, trailingBytesCount := 2\<rparr>,
              new_world\<lparr>sources := [(1, 2) \<mapsto> 0],
                         delivered := [new_Asterix1Report\<lparr>sourceIdentifier := (1, 2), ssrpsr := 2,
                           rawRange := 0x80, rawAzimuth := 0x4000,
                           mode3A := Some (0, False, False, False),
                           ssrHeight := Some (0, False, False)\<rparr>]\<rparr>), [15])
   \<and> sum_list [15] + trailingBytesCount (new_stats\<lparr>totalPackets := 1, trailingBytesCount := 2\<rparr>)
       = trailingBytesCount new_stats + 17"
proof -
  have k: "\<forall>cat h. cat1_only cat = Some h \<longrightarrow> keeps_trailing h"
    by (simp add: cat1_only_def Asterix1Handler_keeps_trailing)
  have e: "handlePacket cat1_only
        [0x01, 0x00, 0x0F, 0xF8, 0x01, 0x02, 0x20, 0x00, 0x80, 0x40, 0x00, 0x00, 0x00, 0x00, 0x00,
         0xAA, 0xBB]
        (new_stats, new_world)
      = Inr ((new_stats\<lparr>totalPackets := 1, trailingBytesCount := 2\<rparr>,
              new_world\<lparr>sources := [(1, 2) \<mapsto> 0],
                         delivered := [new_Asterix1Report\<lparr>sourceIdentifier := (1, 2), ssrpsr := 2,
                           rawRange := 0x80, rawAzimuth := 0x4000,
                           mode3A := Some (0, False, False, False),
                           ssrHeight := Some (0, False, False)\<rparr>]\<rparr>), [15])"
    by (simp add: packet_eval walk_eval handler_defs decode_defs Let_def new_stats_def
        new_world_def new_Asterix1Report_def)
  show ?thesis
    using e handlePacket_accounts_for_every_byte [OF k e] by simp
qed

text \<open>
  Claim C4, as amended. When the buffer holds at least \<open>MIN_BLOCK_SIZE\<close> bytes and its first
  block declares a length below \<open>HEADER_SIZE\<close>, \<open>handlePacket\<close> increments
  \<open>malformedBlocks\<close> by exactly 1, parses no further block, and adds the length of the
  discarded remainder, here the whole buffer, to \<open>trailingBytesCount\<close>.
\<close>

theorem handlePacket_malformed_first_block:
  assumes "MIN_BLOCK_SIZE \<le> length data" and "unat (readBe16 data 1) < HEADER_SIZE"
  shows "handlePacket categoryHandlers data s =
           Inr (apfst (\<lambda>st. st\<lparr>totalPackets := totalPackets st + 1,
                                 malformedBlocks := malformedBlocks st + 1,
                                 trailingBytesCount := trailingBytesCount st + length data\<rparr>) s, [])"
proof -
  have "processDataBlock categoryHandlers data s1 = Inr (0, s1)" for s1
    using assms by (simp add: processDataBlock_def Let_def)
  then have "blockLoop categoryHandlers data s1 [] =
      Inr (data, apfst (\<lambda>st. st\<lparr>malformedBlocks := malformedBlocks st + 1\<rparr>) s1, [])" for s1
    using assms(1) by (simp add: blockLoop.simps [of categoryHandlers data s1 "[]"])
  moreover have "data \<noteq> []" using assms(1) by (auto simp: MIN_BLOCK_SIZE_def)
  ultimately show ?thesis
    by (cases s) (simp add: handlePacket_def)
qed

text \<open>The theorem at the six bytes \<open>01 00 02 80 00 00\<close>.\<close>

theorem handlePacket_malformed_first_block_witness:
  "MIN_BLOCK_SIZE \<le> length [0x01, 0x00, 0x02, 0x80, 0x00, 0x00 :: byte]
   \<and> unat (readBe16 [0x01, 0x00, 0x02, 0x80, 0x00, 0x00] 1) < HEADER_SIZE
   \<and> handlePacket cat1_only [0x01, 0x00, 0x02, 0x80, 0x00, 0x00] (new_stats, new_world)
       = Inr ((new_stats\<lparr>totalPackets := 1, trailingBytesCount := 6, malformedBlocks := 1\<rparr>,
               new_world), [])"
proof -
  have a: "MIN_BLOCK_SIZE \<le> length [0x01, 0x00, 0x02, 0x80, 0x00, 0x00 :: byte]"
    by (simp add: MIN_BLOCK_SIZE_def)
  have b: "unat (readBe16 [0x01, 0x00, 0x02, 0x80, 0x00, 0x00] 1) < HEADER_SIZE"
    by (simp add: readBe16_def HEADER_SIZE_def)
  show ?thesis
    using a b handlePacket_malformed_first_block [OF a b, of cat1_only "(new_stats, new_world)"]
    by (simp add: new_stats_def)
qed

text \<open>
  Claim C4 as stated fails at its own example: on \<open>01 00 02 80 00 00\<close> the counter
  \<open>trailingBytesCount\<close> goes from 0 to 6.
\<close>

theorem handlePacket_malformed_counts_trailing:
  "handlePacket cat1_only [0x01, 0x00, 0x02, 0x80, 0x00, 0x00] (new_stats, new_world)
     = Inr ((new_stats\<lparr>totalPackets := 1, trailingBytesCount := 6, malformedBlocks := 1\<rparr>,
             new_world), [])
   \<and> trailingBytesCount new_stats = 0"
  by (simp add: packet_eval Let_def new_stats_def)

text \<open>
  Claim C6, as amended. \<open>handlePacket\<close> on an empty buffer returns at once and changes no
  counter, \<open>totalPackets\<close> included.
\<close>

theorem handlePacket_empty: "handlePacket categoryHandlers [] s = Inr (s, [])"
  by (simp add: handlePacket_def)

text \<open>
  Claim C6 as stated fails: after \<open>handlePacket\<close> on the empty buffer \<open>totalPackets\<close> is
  still 0.
\<close>

theorem handlePacket_empty_not_counted:
  "handlePacket cat1_only [] (new_stats, new_world) = Inr ((new_stats, new_world), [])
   \<and> totalPackets new_stats = 0"
  by (simp add: handlePacket_def new_stats_def)

text \<open>
  Claim C5 says that no decoding error crosses the boundary of \<open>handlePacket\<close>. On a category
  001 block whose record carries an I001/020 with reserved bit 7 set, the exception thrown by
  \<open>I001_020_Handler::decode\<close> leaves \<open>handlePacket\<close>: the call does not return, and no
  counter records the rejection.
\<close>

theorem handlePacket_throws:
  "handlePacket cat1_only [0x01, 0x00, 0x07, 0xC0, 0x01, 0x02, 0x80] (new_stats, new_world)
     = Inl UninterpretedItem"
  by (simp add: packet_eval walk_eval handler_defs decode_defs Let_def)

end
